theory Spec2Isabelle
  imports Main "HOL-Library.Sublist"
begin

section \<open>Data model of bot.py\<close>

text \<open>
  An item is the dict \<^verbatim>\<open>{"id": key, "title": title, "link": href}\<close> built by
  \<^verbatim>\<open>fetch_latest_items\<close>. The field \<^verbatim>\<open>id\<close> is called \<open>item_id\<close> here, since
  \<open>id\<close> is the identity function of HOL.
\<close>

record item =
  item_id :: string
  title :: string
  link :: string

text \<open>
  The dedup state is the dict that \<^verbatim>\<open>load_state\<close> returns and \<^verbatim>\<open>save_state\<close>
  writes: source name to the collection of known ids. The code reads an entry only
  through \<^verbatim>\<open>set(state.get(name, []))\<close> and writes it only as \<^verbatim>\<open>list(s)\<close> of a set
  \<open>s\<close>, whose order Python leaves open; an entry is therefore kept as the set of its ids.

  The file \<^verbatim>\<open>seen.json\<close> is either unreadable (it does not exist, or
  \<^verbatim>\<open>json.load\<close> raises) or holds such a document.
\<close>

type_synonym dedup = "string \<rightharpoonup> string set"

datatype seen_file = Unreadable | Doc dedup

text \<open>
  \<^verbatim>\<open>NEWS_SOURCES\<close> is a dict from a name to \<^verbatim>\<open>(url, label)\<close>; it is iterated in
  insertion order. It is a list of triples (name, url, label) here; being a dict, its
  names are distinct, which the theorems assume as \<open>distinct (map fst srcs)\<close>.
\<close>

type_synonym source = "string \<times> string \<times> string"

text \<open>
  What \<^verbatim>\<open>SESSION.get\<close>, \<^verbatim>\<open>raise_for_status\<close> and \<^verbatim>\<open>BeautifulSoup\<close> give for a url:
  an exception, or the anchors \<^verbatim>\<open><a href=...>\<close> of the page in document order, each as
  the pair of \<^verbatim>\<open>a.get_text(strip=True)\<close> and \<^verbatim>\<open>a["href"]\<close>.
\<close>

datatype response = FetchError | Page "(string \<times> string) list"

text \<open>
  What \<^verbatim>\<open>bot.get_channel(cid)\<close> can return: \<open>None\<close>, a text channel, a thread, or
  another object, which has a \<^verbatim>\<open>send\<close> attribute or not.
\<close>

datatype channel = TextChannel | Thread | Other bool

text \<open>
  The world as one invocation of \<^verbatim>\<open>news_loop\<close> sees it: the object the client has
  for \<^verbatim>\<open>NOTICE_CHANNEL_ID\<close>, the value of the global \<^verbatim>\<open>_bootstrap_done\<close>, the
  answer of the site for each url, and what the two calls out of the loop do.
  \<open>send_ok name it\<close> tells whether \<^verbatim>\<open>ch.send\<close> returns for the message of the item
  \<open>it\<close> in the iteration of the source \<open>name\<close>, and \<open>save_ok name ids\<close> whether
  \<^verbatim>\<open>save_state\<close> returns when the iteration of the source \<open>name\<close> writes the state in
  which that source has the ids \<open>ids\<close>; otherwise the call raises. In one invocation
  a source sends an item once and writes each of its sets once, so the two functions
  fix the outcome of every call.
\<close>

record env =
  notice_channel :: "channel option"
  bootstrap_done :: bool
  http :: "string \<Rightarrow> response"
  send_ok :: "string \<Rightarrow> item \<Rightarrow> bool"
  save_ok :: "string \<Rightarrow> string set \<Rightarrow> bool"

text \<open>
  The effects of one invocation of \<^verbatim>\<open>news_loop\<close>, in the order in which they happen:
  \<open>Load\<close> is the read of \<^verbatim>\<open>seen.json\<close> by \<^verbatim>\<open>load_state\<close>, \<open>Fetch name url\<close> the
  request of \<^verbatim>\<open>fetch_latest_items\<close>, \<open>Send name label it\<close> the message of
  \<^verbatim>\<open>announce_news_item(ch, label, it)\<close> in the iteration of the source \<open>name\<close>,
  \<open>Save st\<close> the write of the whole state \<open>st\<close> by \<^verbatim>\<open>save_state\<close>, and \<open>Sleep\<close> the
  \<^verbatim>\<open>time.sleep(0.5)\<close>. \<open>SendRaised\<close> and \<open>SaveRaised\<close> are the same two calls when
  they raise, and \<open>Report\<close> is the call of \<^verbatim>\<open>report_error\<close> in the handler of line 200.
\<close>

datatype effect =
    Load
  | Fetch string string
  | Send string string item
  | SendRaised string string item
  | Save dedup
  | SaveRaised dedup
  | Sleep
  | Report

text \<open>How a block of the loop ends: it runs to its end, or an exception leaves it.\<close>

datatype status = Normal | Raised

text \<open>
  The registry of the module, lines 88 to 94. The names and the labels are Korean text
  and pictographs; they are given as the bytes of their UTF-8 encoding, which keeps
  apart what the code points keep apart.
\<close>

definition NEWS_SOURCES :: "source list" where
  "NEWS_SOURCES =
     [([CHR 0xEA, CHR 0xB3, CHR 0xB5, CHR 0xEC, CHR 0xA7, CHR 0x80, CHR 0xEC, CHR
         0x82, CHR 0xAC, CHR 0xED, CHR 0x95, CHR 0xAD],
        ''https://mabinogimobile.nexon.com/News/Notice'',
        [CHR 0xF0, CHR 0x9F, CHR 0x93, CHR 0xA3, CHR 0x20, CHR 0xEA, CHR 0xB3, CHR
         0xB5, CHR 0xEC, CHR 0xA7, CHR 0x80]),
      ([CHR 0xEC, CHR 0x97, CHR 0x85, CHR 0xEB, CHR 0x8D, CHR 0xB0, CHR 0xEC, CHR
         0x9D, CHR 0xB4, CHR 0xED, CHR 0x8A, CHR 0xB8],
        ''https://mabinogimobile.nexon.com/News/Update'',
        [CHR 0xF0, CHR 0x9F, CHR 0x9B, CHR 0xA0, CHR 0x20, CHR 0xEC, CHR 0x97, CHR
         0x85, CHR 0xEB, CHR 0x8D, CHR 0xB0, CHR 0xEC, CHR 0x9D, CHR 0xB4, CHR 0xED, CHR
         0x8A, CHR 0xB8]),
      ([CHR 0xEC, CHR 0x9D, CHR 0xB4, CHR 0xEB, CHR 0xB2, CHR 0xA4, CHR 0xED, CHR
         0x8A, CHR 0xB8],
        ''https://mabinogimobile.nexon.com/News/Events?headlineId=2501'',
        [CHR 0xF0, CHR 0x9F, CHR 0x8E, CHR 0x89, CHR 0x20, CHR 0xEC, CHR 0x9D, CHR
         0xB4, CHR 0xEB, CHR 0xB2, CHR 0xA4, CHR 0xED, CHR 0x8A, CHR 0xB8]),
      ([CHR 0xEC, CHR 0x97, CHR 0x90, CHR 0xEB, CHR 0xA6, CHR 0xB0, CHR 0xEB, CHR
         0x85, CHR 0xB8, CHR 0xED, CHR 0x8A, CHR 0xB8],
        ''https://mabinogimobile.nexon.com/News/Devnote'',
        [CHR 0xF0, CHR 0x9F, CHR 0x93, CHR 0x94, CHR 0x20, CHR 0xEC, CHR 0x97, CHR
         0x90, CHR 0xEB, CHR 0xA6, CHR 0xB0, CHR 0xEB, CHR 0x85, CHR 0xB8, CHR 0xED, CHR
         0x8A, CHR 0xB8])]"

section \<open>The dedup store\<close>

definition load_state :: "source list \<Rightarrow> seen_file \<Rightarrow> dedup" where
  "load_state srcs f =
     (case f of
        Doc st \<Rightarrow> st
      | Unreadable \<Rightarrow> map_of (map (\<lambda>s. (fst s, {})) srcs))"

definition save_state :: "dedup \<Rightarrow> seen_file" where
  "save_state st = Doc st"

text \<open>\<^verbatim>\<open>set(state.get(name, []))\<close>\<close>

definition known_of :: "dedup \<Rightarrow> string \<Rightarrow> string set" where
  "known_of st name = (case st name of None \<Rightarrow> {} | Some ids \<Rightarrow> ids)"

text \<open>The known set of a source as the next \<^verbatim>\<open>load_state\<close> will read it from the file.\<close>

definition persisted :: "source list \<Rightarrow> seen_file \<Rightarrow> string \<Rightarrow> string set" where
  "persisted srcs f name = known_of (load_state srcs f) name"

section \<open>The feed fetcher\<close>

text \<open>
  \<^verbatim>\<open>hashlib.sha1(url.encode("utf-8")).hexdigest()\<close> is a function of the library; it
  is the parameter \<open>H\<close> of the model.
\<close>

definition normalize_link :: "(string \<Rightarrow> string) \<Rightarrow> string \<Rightarrow> string" where
  "normalize_link H url = H url"

definition startswith :: "string \<Rightarrow> string \<Rightarrow> bool" where
  "startswith s p = prefix p s"

definition BASE :: string where
  "BASE = ''https://mabinogimobile.nexon.com''"

definition SEGS :: "string list" where
  "SEGS = [''/News/Notice'', ''/News/Update'', ''/News/Events'', ''/News/Devnote'']"

text \<open>The correction of a relative path, lines 132 and 133.\<close>

definition resolve :: "string \<Rightarrow> string" where
  "resolve href = (if startswith href ''/'' then BASE @ href else href)"

text \<open>The test of lines 135 to 137 on the corrected href.\<close>

definition news_link :: "string \<Rightarrow> bool" where
  "news_link href =
     (sublist ''mabinogimobile.nexon.com'' href \<and> list_ex (\<lambda>seg. sublist seg href) SEGS)"

text \<open>The first loop of \<^verbatim>\<open>fetch_latest_items\<close>: the list \<^verbatim>\<open>anchors\<close>.\<close>

fun collect_anchors :: "(string \<times> string) list \<Rightarrow> (string \<times> string) list" where
  "collect_anchors [] = []"
| "collect_anchors ((text, href) # as) =
     (let href' = resolve href in
      if news_link href' \<and> text \<noteq> [] then (text, href') # collect_anchors as
      else collect_anchors as)"

text \<open>
  The second loop, with its variables \<^verbatim>\<open>seen\<close> and \<^verbatim>\<open>items\<close>: the test of the
  limit comes after the append, as in the source.
\<close>

fun dedup_items ::
  "(string \<Rightarrow> string) \<Rightarrow> int \<Rightarrow> (string \<times> string) list \<Rightarrow> string set \<Rightarrow> item list \<Rightarrow> item list"
where
  "dedup_items H limit [] seen items = items"
| "dedup_items H limit ((t, href) # as) seen items =
     (let key = normalize_link H href in
      if key \<in> seen then dedup_items H limit as seen items
      else
        (let items' = items @ [\<lparr>item_id = key, title = t, link = href\<rparr>] in
         if int (length items') \<ge> limit then items'
         else dedup_items H limit as (insert key seen) items'))"

definition fetch_latest_items :: "(string \<Rightarrow> string) \<Rightarrow> response \<Rightarrow> int \<Rightarrow> item list" where
  "fetch_latest_items H r limit =
     (case r of
        FetchError \<Rightarrow> []
      | Page as \<Rightarrow> dedup_items H limit (collect_anchors as) {} [])"

section \<open>The poll cycle\<close>

text \<open>
  The body of \<^verbatim>\<open>news_loop\<close> is one \<^verbatim>\<open>try\<close> block, lines 169 to 201. The exceptions of
  the request and of the parser are caught inside \<^verbatim>\<open>fetch_latest_items\<close> and are the
  response \<open>FetchError\<close>. An exception of \<^verbatim>\<open>ch.send\<close> or of \<^verbatim>\<open>save_state\<close> leaves the
  loop over the items and the loop over the sources for the handler, which calls
  \<^verbatim>\<open>report_error\<close>; each loop of the model returns the status with which it ends. A
  write that raises is taken to leave the file as it was. The flag
  \<^verbatim>\<open>_bootstrap_done\<close> is read once for each source; the model takes the value it has
  during the invocation.
\<close>

definition get_channel :: "channel option \<Rightarrow> channel option" where
  "get_channel ch =
     (case ch of
        Some TextChannel \<Rightarrow> ch
      | Some Thread \<Rightarrow> ch
      | Some (Other has_send) \<Rightarrow> (if has_send then ch else None)
      | None \<Rightarrow> None)"

text \<open>
  The loop of lines 191 to 195 over \<^verbatim>\<open>reversed(new_items)\<close>, on the local set
  \<^verbatim>\<open>known\<close>, the dict \<^verbatim>\<open>state\<close> and the file.
\<close>

fun announce_items ::
  "env \<Rightarrow> string \<Rightarrow> string \<Rightarrow> item list \<Rightarrow> string set \<Rightarrow> dedup \<Rightarrow> seen_file
     \<Rightarrow> effect list \<times> dedup \<times> seen_file \<times> status"
where
  "announce_items e name label [] known state f = ([], state, f, Normal)"
| "announce_items e name label (it # its) known state f =
     (if \<not> send_ok e name it then ([SendRaised name label it], state, f, Raised)
      else
        (let known' = insert (item_id it) known;
             state' = state(name \<mapsto> known')
         in
           if \<not> save_ok e name known'
           then ([Send name label it, SaveRaised state'], state', f, Raised)
           else
             (let (tr, state'', f'', s) =
                    announce_items e name label its known' state' (save_state state')
              in (Send name label it # Save state' # tr, state'', f'', s))))"

text \<open>The body of the loop over \<^verbatim>\<open>NEWS_SOURCES.items()\<close>, lines 177 to 198.\<close>

definition poll_source ::
  "(string \<Rightarrow> string) \<Rightarrow> env \<Rightarrow> source \<Rightarrow> dedup \<Rightarrow> seen_file
     \<Rightarrow> effect list \<times> dedup \<times> seen_file \<times> status"
where
  "poll_source H e s state f =
     (case s of (name, url, label) \<Rightarrow>
        (let items = fetch_latest_items H (http e url) 5 in
         if items = [] then ([Fetch name url], state, f, Normal)
         else
           (let known = known_of state name;
                new_items = filter (\<lambda>it. item_id it \<notin> known) items
            in
              if \<not> bootstrap_done e then
                (let ids = known \<union> set (map item_id items);
                     state' = state(name \<mapsto> ids)
                 in
                   if \<not> save_ok e name ids
                   then ([Fetch name url, SaveRaised state'], state', f, Raised)
                   else ([Fetch name url, Save state'], state', save_state state', Normal))
              else
                (let (tr, state', f', s) =
                       announce_items e name label (rev new_items) known state f
                 in
                   if s = Raised then (Fetch name url # tr, state', f', Raised)
                   else (Fetch name url # tr @ [Sleep], state', f', Normal)))))"

fun poll_sources ::
  "(string \<Rightarrow> string) \<Rightarrow> env \<Rightarrow> source list \<Rightarrow> dedup \<Rightarrow> seen_file
     \<Rightarrow> effect list \<times> dedup \<times> seen_file \<times> status"
where
  "poll_sources H e [] state f = ([], state, f, Normal)"
| "poll_sources H e (s # ss) state f =
     (let (tr1, state1, f1, s1) = poll_source H e s state f in
      if s1 = Raised then (tr1, state1, f1, Raised)
      else
        (let (tr2, state2, f2, s2) = poll_sources H e ss state1 f1
         in (tr1 @ tr2, state2, f2, s2)))"

text \<open>
  One invocation of \<^verbatim>\<open>news_loop\<close> on the registry \<open>srcs\<close> and the file \<open>f\<close>: the
  effects and the file afterwards.
\<close>

definition news_loop ::
  "(string \<Rightarrow> string) \<Rightarrow> env \<Rightarrow> source list \<Rightarrow> seen_file \<Rightarrow> effect list \<times> seen_file"
where
  "news_loop H e srcs f =
     (case get_channel (notice_channel e) of
        None \<Rightarrow> ([], f)
      | Some ch \<Rightarrow>
          (let (tr, state, f', s) = poll_sources H e srcs (load_state srcs f) f
           in (Load # tr @ (if s = Raised then [Report] else []), f')))"

text \<open>Successive invocations, each in its own world, on the file the one before left.\<close>

fun run ::
  "(string \<Rightarrow> string) \<Rightarrow> source list \<Rightarrow> env list \<Rightarrow> seen_file \<Rightarrow> effect list list \<times> seen_file"
where
  "run H srcs [] f = ([], f)"
| "run H srcs (e # es) f =
     (let (tr, f1) = news_loop H e srcs f;
          (trs, f2) = run H srcs es f1
      in (tr # trs, f2))"

text \<open>The four parts of what a loop returns.\<close>

abbreviation trace_of :: "effect list \<times> dedup \<times> seen_file \<times> status \<Rightarrow> effect list" where
  "trace_of r \<equiv> fst r"

abbreviation state_of :: "effect list \<times> dedup \<times> seen_file \<times> status \<Rightarrow> dedup" where
  "state_of r \<equiv> fst (snd r)"

abbreviation file_of :: "effect list \<times> dedup \<times> seen_file \<times> status \<Rightarrow> seen_file" where
  "file_of r \<equiv> fst (snd (snd r))"

abbreviation status_of :: "effect list \<times> dedup \<times> seen_file \<times> status \<Rightarrow> status" where
  "status_of r \<equiv> snd (snd (snd r))"

text \<open>
  What the loop over the sources has done when it reaches the source that follows the
  sources \<open>pre\<close> in the registry \<open>srcs\<close>: the effects so far, and the state and the file
  at that point.
\<close>

definition trace_before ::
  "(string \<Rightarrow> string) \<Rightarrow> env \<Rightarrow> source list \<Rightarrow> source list \<Rightarrow> seen_file \<Rightarrow> effect list"
where
  "trace_before H e srcs pre f = trace_of (poll_sources H e pre (load_state srcs f) f)"

definition state_before ::
  "(string \<Rightarrow> string) \<Rightarrow> env \<Rightarrow> source list \<Rightarrow> source list \<Rightarrow> seen_file \<Rightarrow> dedup"
where
  "state_before H e srcs pre f = state_of (poll_sources H e pre (load_state srcs f) f)"

definition file_before ::
  "(string \<Rightarrow> string) \<Rightarrow> env \<Rightarrow> source list \<Rightarrow> source list \<Rightarrow> seen_file \<Rightarrow> seen_file"
where
  "file_before H e srcs pre f = file_of (poll_sources H e pre (load_state srcs f) f)"

text \<open>The messages of a trace that were sent for the source \<open>name\<close>.\<close>

fun sent_for :: "string \<Rightarrow> effect list \<Rightarrow> item list" where
  "sent_for name [] = []"
| "sent_for name (Send n l it # tr) =
     (if n = name then it # sent_for name tr else sent_for name tr)"
| "sent_for name (ev # tr) = sent_for name tr"

fun is_Send :: "effect \<Rightarrow> bool" where
  "is_Send (Send n l it) = True"
| "is_Send (SendRaised n l it) = True"
| "is_Send ev = False"

subsection \<open>Two runs that differ in one source\<close>

text \<open>
  For the comparison of an invocation with the one on the registry without the source
  \<open>m\<close>: two states agree when they have the same entries but for \<open>m\<close>, two files when
  both are unreadable or hold states that agree, and two results of a loop are similar
  when they sent the same messages for every source, ended with the same status and
  left states and files that agree.
\<close>

definition agree :: "string \<Rightarrow> dedup \<Rightarrow> dedup \<Rightarrow> bool" where
  "agree m st st' = (\<forall>k. k \<noteq> m \<longrightarrow> st k = st' k)"

definition fagree :: "string \<Rightarrow> seen_file \<Rightarrow> seen_file \<Rightarrow> bool" where
  "fagree m f f' =
     (case f of
        Unreadable \<Rightarrow> f' = Unreadable
      | Doc d \<Rightarrow> (case f' of Unreadable \<Rightarrow> False | Doc d' \<Rightarrow> agree m d d'))"

definition similar ::
  "string \<Rightarrow> effect list \<times> dedup \<times> seen_file \<times> status
     \<Rightarrow> effect list \<times> dedup \<times> seen_file \<times> status \<Rightarrow> bool"
where
  "similar m r r' =
     ((\<forall>j. sent_for j (trace_of r) = sent_for j (trace_of r')) \<and>
      status_of r = status_of r' \<and>
      agree m (state_of r) (state_of r') \<and>
      fagree m (file_of r) (file_of r'))"

text \<open>How often an item with the id \<open>x\<close> is announced for the source \<open>name\<close> in a trace.\<close>

definition announced :: "string \<Rightarrow> string \<Rightarrow> effect list \<Rightarrow> nat" where
  "announced name x tr = length (filter (\<lambda>it. item_id it = x) (sent_for name tr))"

text \<open>Whether the fetch of the url \<open>u\<close> in the world \<open>e\<close> returns an item with the id \<open>x\<close>.\<close>

definition appears :: "(string \<Rightarrow> string) \<Rightarrow> env \<Rightarrow> string \<Rightarrow> string \<Rightarrow> bool" where
  "appears H e u x = (x \<in> item_id ` set (fetch_latest_items H (http e u) 5))"

text \<open>
  \<open>delay_between name False tr\<close>: in the trace \<open>tr\<close>, every message for the source
  \<open>name\<close> but the first comes after a \<open>Sleep\<close> that follows the message before it. The
  flag tells whether a message for \<open>name\<close> was sent since the last \<open>Sleep\<close>.
\<close>

fun delay_between :: "string \<Rightarrow> bool \<Rightarrow> effect list \<Rightarrow> bool" where
  "delay_between name pending [] = True"
| "delay_between name pending (Send n l it # tr) =
     (if n = name then \<not> pending \<and> delay_between name True tr
      else delay_between name pending tr)"
| "delay_between name pending (Sleep # tr) = delay_between name False tr"
| "delay_between name pending (ev # tr) = delay_between name pending tr"

text \<open>
  What the iteration of a source does between its \<open>Fetch\<close> and its \<open>Sleep\<close> when the
  flag is set and no call raises: for the \<open>i\<close>-th of the items \<open>new\<close>, the message and
  then the write of the state in which the source has the ids known before and those of
  the first \<open>i + 1\<close> items.
\<close>

definition dispatches :: "string \<Rightarrow> string \<Rightarrow> item list \<Rightarrow> string set \<Rightarrow> dedup \<Rightarrow> effect list"
where
  "dispatches n l new known st =
     concat (map (\<lambda>i. [Send n l (new ! i),
                        Save (st(n \<mapsto> known \<union> item_id ` set (take (Suc i) new)))])
                 [0..<length new])"

text \<open>The item that the second loop of \<^verbatim>\<open>fetch_latest_items\<close> builds from an anchor.\<close>

definition mk_item :: "(string \<Rightarrow> string) \<Rightarrow> string \<times> string \<Rightarrow> item" where
  "mk_item H a = \<lparr>item_id = normalize_link H (snd a), title = fst a, link = snd a\<rparr>"

subsection \<open>A registry of one source and its pages\<close>

text \<open>
  A source \<open>Notice\<close> whose page lists posts: the post \<open>t\<close> is the anchor with the text
  \<open>t\<close> and the relative href \<^verbatim>\<open>/News/Notice/t\<close>; \<open>posted H t\<close> is the item that the
  fetcher makes of it. \<open>world ch gate ts\<close> is a world in which the client has \<open>ch\<close> for
  the notice channel, the flag is \<open>gate\<close>, the page of the source lists the posts
  \<open>ts\<close>, newest first, any other url fails, and no send and no write raises.
\<close>

definition NOTICE :: source where
  "NOTICE = (''Notice'', ''https://mabinogimobile.nexon.com/News/Notice'', ''notice'')"

text \<open>A second source, which the worlds below do not serve: its fetch fails.\<close>

definition UPDATE :: source where
  "UPDATE = (''Update'', ''https://mabinogimobile.nexon.com/News/Update'', ''update'')"

definition link_of :: "string \<Rightarrow> string" where
  "link_of t = BASE @ ''/News/Notice/'' @ t"

definition post :: "string \<Rightarrow> string \<times> string" where
  "post t = (t, ''/News/Notice/'' @ t)"

definition posted :: "(string \<Rightarrow> string) \<Rightarrow> string \<Rightarrow> item" where
  "posted H t = \<lparr>item_id = H (link_of t), title = t, link = link_of t\<rparr>"

definition world :: "channel option \<Rightarrow> bool \<Rightarrow> string list \<Rightarrow> env" where
  "world ch gate ts =
     \<lparr>notice_channel = ch, bootstrap_done = gate,
      http = (\<lambda>u. if u = ''https://mabinogimobile.nexon.com/News/Notice''
                   then Page (map post ts) else FetchError),
      send_ok = (\<lambda>n it. True), save_ok = (\<lambda>n ids. True)\<rparr>"

section \<open>The tick cycle\<close>

text \<open>
  The two messages of \<^verbatim>\<open>tick_loop\<close>, each with the hour and the minute that its
  text shows. The body of \<^verbatim>\<open>tick_loop\<close> is one \<^verbatim>\<open>try\<close> block, lines 64 to 80: a
  \<^verbatim>\<open>ch.send\<close> that raises leaves it for \<^verbatim>\<open>report_error\<close>. \<open>SendAlert a\<close> is a send that
  returns, \<open>AlertRaised a\<close> one that raises, \<open>ReportTick\<close> the call of \<^verbatim>\<open>report_error\<close>.

  \<open>tick_loop ch ok hour minute\<close> is the list of the effects, in order, when the client
  has \<open>ch\<close> for \<^verbatim>\<open>ALERT_CHANNEL_ID\<close>, \<^verbatim>\<open>datetime.now(KST)\<close> has the given hour and minute,
  and \<open>ok a\<close> tells whether the send of the message \<open>a\<close> returns.
\<close>

datatype alert = HourTick int int | FieldBoss int int

datatype tick_effect = SendAlert alert | AlertRaised alert | ReportTick

definition field_boss :: "(alert \<Rightarrow> bool) \<Rightarrow> int \<Rightarrow> int \<Rightarrow> tick_effect list" where
  "field_boss ok hour minute =
     (if minute = 0 \<and> hour \<in> {12, 18, 20, 22}
      then (if ok (FieldBoss hour minute) then [SendAlert (FieldBoss hour minute)]
            else [AlertRaised (FieldBoss hour minute), ReportTick])
      else [])"

definition tick_loop :: "channel option \<Rightarrow> (alert \<Rightarrow> bool) \<Rightarrow> int \<Rightarrow> int \<Rightarrow> tick_effect list" where
  "tick_loop ch ok hour minute =
     (case get_channel ch of
        None \<Rightarrow> []
      | Some c \<Rightarrow>
          (if minute = 0 \<and> 9 \<le> hour \<and> hour \<le> 23
           then (if ok (HourTick hour minute)
                 then SendAlert (HourTick hour minute) # field_boss ok hour minute
                 else [AlertRaised (HourTick hour minute), ReportTick])
           else field_boss ok hour minute))"

text \<open>
  The hourly messages and the field boss messages for which a tick called \<^verbatim>\<open>ch.send\<close>,
  whether the call returned or raised.
\<close>

fun hourly_fired :: "tick_effect list \<Rightarrow> alert list" where
  "hourly_fired [] = []"
| "hourly_fired (SendAlert (HourTick h m) # tr) = HourTick h m # hourly_fired tr"
| "hourly_fired (AlertRaised (HourTick h m) # tr) = HourTick h m # hourly_fired tr"
| "hourly_fired (ev # tr) = hourly_fired tr"

fun boss_fired :: "tick_effect list \<Rightarrow> alert list" where
  "boss_fired [] = []"
| "boss_fired (SendAlert (FieldBoss h m) # tr) = FieldBoss h m # boss_fired tr"
| "boss_fired (AlertRaised (FieldBoss h m) # tr) = FieldBoss h m # boss_fired tr"
| "boss_fired (ev # tr) = boss_fired tr"

section \<open>The bootstrap flag in the life of the process\<close>

text \<open>
  The process as far as the flag is concerned: the global \<^verbatim>\<open>_bootstrap_done\<close>,
  whether \<^verbatim>\<open>tick_loop\<close> and \<^verbatim>\<open>news_loop\<close> are running, and the number of pending
  \<^verbatim>\<open>call_later\<close> timers. The module starts with the flag \<open>False\<close> (line 97).
\<close>

record process =
  flag :: bool
  tick_running :: bool
  news_running :: bool
  timers :: nat

definition initial :: process where
  "initial = \<lparr>flag = False, tick_running = False, news_running = False, timers = 0\<rparr>"

text \<open>
  The events that run code of the module: the client dispatches \<^verbatim>\<open>on_ready\<close>, a pending
  timer fires and runs its lambda, or one of the two loops runs an iteration. Neither
  loop assigns the flag.
\<close>

datatype event = OnReady | TimerFires | NewsCycle | TickCycle

definition on_ready :: "process \<Rightarrow> process" where
  "on_ready p =
     (let p1 = (if \<not> tick_running p then p\<lparr>tick_running := True\<rparr> else p);
          p2 = p1\<lparr>flag := False\<rparr>
      in if \<not> news_running p2 then p2\<lparr>news_running := True, timers := timers p2 + 1\<rparr>
         else p2)"

fun step :: "process \<Rightarrow> event \<Rightarrow> process" where
  "step p OnReady = on_ready p"
| "step p TimerFires =
     (if timers p > 0 then p\<lparr>flag := True, timers := timers p - 1\<rparr> else p)"
| "step p NewsCycle = p"
| "step p TickCycle = p"

definition exec :: "process \<Rightarrow> event list \<Rightarrow> process" where
  "exec p evs = foldl step p evs"

section \<open>Lemmas on the loops\<close>

lemma known_of_upd [simp]:
  "known_of (st(n \<mapsto> S)) m = (if m = n then S else known_of st m)"
  by (simp add: known_of_def)

lemma persisted_Doc [simp]: "persisted srcs (Doc st) n = known_of st n"
  by (simp add: persisted_def load_state_def)

lemma persisted_Unreadable [simp]: "persisted srcs Unreadable n = {}"
proof (cases "map_of (map (\<lambda>s. (fst s, {}::string set)) srcs) n")
  case None
  then show ?thesis by (simp add: persisted_def load_state_def known_of_def)
next
  case (Some S)
  then have "(n, S) \<in> set (map (\<lambda>s. (fst s, {})) srcs)" by (rule map_of_SomeD)
  then have "S = {}" by auto
  with Some show ?thesis by (simp add: persisted_def load_state_def known_of_def)
qed

lemma persisted_registry: "persisted srcs f n = persisted srcs' f n"
  by (cases f) simp_all

lemma known_of_load_state: "known_of (load_state srcs f) n = persisted srcs f n"
  by (simp add: persisted_def)

lemma sent_for_append: "sent_for n (a @ b) = sent_for n a @ sent_for n b"
  by (induction n a rule: sent_for.induct) auto

subsection \<open>The messages and writes of a source\<close>

lemma dispatches_Nil [simp]: "dispatches n l [] known st = []"
  by (simp add: dispatches_def)

lemma dispatches_Cons:
  "dispatches n l (it # its) known st =
     Send n l it # Save (st(n \<mapsto> insert (item_id it) known)) #
       dispatches n l its (insert (item_id it) known) (st(n \<mapsto> insert (item_id it) known))"
proof -
  have upt: "[0..<length (it # its)] = 0 # map Suc [0..<length its]"
    by (simp add: upt_conv_Cons map_Suc_upt del: upt_Suc)
  show ?thesis
    unfolding dispatches_def upt
    by (simp add: comp_def del: upt_Suc)
qed

lemma dispatches_no_sleep: "Sleep \<notin> set (dispatches n l new known st)"
  by (induction new arbitrary: known st) (simp_all add: dispatches_Cons)

lemma dispatches_sent: "sent_for m (dispatches n l new known st) = (if m = n then new else [])"
  by (induction new arbitrary: known st) (auto simp: dispatches_Cons)

subsection \<open>The loop over the new items\<close>

lemma announce_items_no_report: "Report \<notin> set (trace_of (announce_items e n l its known st f))"
  by (induction its arbitrary: known st f) (simp_all add: Let_def split_beta)

lemma announce_items_sent_other:
  "m \<noteq> n \<Longrightarrow> sent_for m (trace_of (announce_items e n l its known st f)) = []"
  by (induction its arbitrary: known st f) (simp_all add: Let_def split_beta)

text \<open>Whatever raises, the loop touches no entry but that of its source.\<close>

lemma announce_items_frame:
  "(\<forall>k. k \<noteq> n \<longrightarrow> state_of (announce_items e n l its known st f) k = st k) \<and>
   (file_of (announce_items e n l its known st f) = f \<or>
    (\<exists>d. file_of (announce_items e n l its known st f) = Doc d \<and> (\<forall>k. k \<noteq> n \<longrightarrow> d k = st k)))"
proof (induction its arbitrary: known st f)
  case Nil
  then show ?case by simp
next
  case (Cons it its)
  let ?k = "insert (item_id it) known"
  let ?s = "st(n \<mapsto> ?k)"
  show ?case
  proof (cases "send_ok e n it \<and> save_ok e n ?k")
    case False
    then show ?thesis by (auto simp: Let_def)
  next
    case True
    then have step: "announce_items e n l (it # its) known st f =
        (Send n l it # Save ?s # trace_of (announce_items e n l its ?k ?s (Doc ?s)),
         snd (announce_items e n l its ?k ?s (Doc ?s)))"
      by (simp add: Let_def split_beta save_state_def)
    let ?r = "announce_items e n l its ?k ?s (Doc ?s)"
    have s: "\<And>k. k \<noteq> n \<Longrightarrow> ?s k = st k" by simp
    from Cons.IH [of ?k ?s "Doc ?s"]
    have a: "\<And>k. k \<noteq> n \<Longrightarrow> state_of ?r k = ?s k"
      and b: "file_of ?r = Doc ?s \<or> (\<exists>d. file_of ?r = Doc d \<and> (\<forall>k. k \<noteq> n \<longrightarrow> d k = ?s k))"
      by blast+
    from a s have a': "\<forall>k. k \<noteq> n \<longrightarrow> state_of ?r k = st k" by simp
    from b s have b': "\<exists>d. file_of ?r = Doc d \<and> (\<forall>k. k \<noteq> n \<longrightarrow> d k = st k)"
      by (metis (full_types))
    from a' b' show ?thesis unfolding step by simp
  qed
qed

text \<open>When the loop ends normally it has sent and written everything.\<close>

lemma announce_items_normal:
  "status_of (announce_items e n l its known st f) = Normal \<Longrightarrow>
     announce_items e n l its known st f =
       (dispatches n l its known st,
        (if its = [] then st else st(n \<mapsto> known \<union> item_id ` set its)),
        (if its = [] then f else Doc (st(n \<mapsto> known \<union> item_id ` set its))),
        Normal)"
proof (induction its arbitrary: known st f)
  case Nil
  then show ?case by simp
next
  case (Cons it its)
  let ?k = "insert (item_id it) known"
  let ?s = "st(n \<mapsto> ?k)"
  from Cons.prems have ok: "send_ok e n it" "save_ok e n ?k"
    by (auto simp: Let_def split: if_splits)
  then have step: "announce_items e n l (it # its) known st f =
        (Send n l it # Save ?s # trace_of (announce_items e n l its ?k ?s (Doc ?s)),
         snd (announce_items e n l its ?k ?s (Doc ?s)))"
    by (simp add: Let_def split_beta save_state_def)
  with Cons.prems have "status_of (announce_items e n l its ?k ?s (Doc ?s)) = Normal"
    by simp
  from Cons.IH [OF this] have rest: "announce_items e n l its ?k ?s (Doc ?s) =
       (dispatches n l its ?k ?s,
        (if its = [] then ?s else ?s(n \<mapsto> ?k \<union> item_id ` set its)),
        (if its = [] then Doc ?s else Doc (?s(n \<mapsto> ?k \<union> item_id ` set its))),
        Normal)" .
  have upd: "?s(n \<mapsto> ?k \<union> item_id ` set its) = st(n \<mapsto> known \<union> item_id ` set (it # its))"
    by simp
  have one: "its = [] \<Longrightarrow> ?s = st(n \<mapsto> known \<union> item_id ` set (it # its))"
    by simp
  show ?case
    unfolding step rest upd
    by (cases "its = []") (simp_all only: dispatches_Cons one fst_conv snd_conv if_True if_False
        list.distinct simp_thms)
qed

lemma announce_items_ok:
  "\<forall>it \<in> set its. send_ok e n it \<Longrightarrow> \<forall>ids. save_ok e n ids \<Longrightarrow>
     status_of (announce_items e n l its known st f) = Normal"
  by (induction its arbitrary: known st f) (simp_all add: Let_def split_beta)

subsection \<open>The iteration of one source\<close>

lemma poll_source_empty:
  "fetch_latest_items H (http e u) 5 = [] \<Longrightarrow>
     poll_source H e (n, u, l) st f = ([Fetch n u], st, f, Normal)"
  by (simp add: poll_source_def)

lemma poll_source_bootstrap:
  "fetch_latest_items H (http e u) 5 \<noteq> [] \<Longrightarrow> \<not> bootstrap_done e \<Longrightarrow>
     poll_source H e (n, u, l) st f =
       (if save_ok e n (known_of st n \<union> item_id ` set (fetch_latest_items H (http e u) 5))
        then
          ([Fetch n u,
            Save (st(n \<mapsto> known_of st n \<union> item_id ` set (fetch_latest_items H (http e u) 5)))],
           st(n \<mapsto> known_of st n \<union> item_id ` set (fetch_latest_items H (http e u) 5)),
           Doc (st(n \<mapsto> known_of st n \<union> item_id ` set (fetch_latest_items H (http e u) 5))),
           Normal)
        else
          ([Fetch n u,
            SaveRaised (st(n \<mapsto> known_of st n \<union> item_id ` set (fetch_latest_items H (http e u) 5)))],
           st(n \<mapsto> known_of st n \<union> item_id ` set (fetch_latest_items H (http e u) 5)),
           f, Raised))"
  by (simp add: poll_source_def Let_def save_state_def)

lemma poll_source_announce:
  "fetch_latest_items H (http e u) 5 \<noteq> [] \<Longrightarrow> bootstrap_done e \<Longrightarrow>
     poll_source H e (n, u, l) st f =
       (let r = announce_items e n l
                  (rev (filter (\<lambda>it. item_id it \<notin> known_of st n)
                     (fetch_latest_items H (http e u) 5)))
                  (known_of st n) st f
        in if status_of r = Raised then (Fetch n u # trace_of r, state_of r, file_of r, Raised)
           else (Fetch n u # trace_of r @ [Sleep], state_of r, file_of r, Normal))"
  by (simp add: poll_source_def Let_def split_beta)

lemma status_not_Raised [simp]: "(s \<noteq> Raised) = (s = Normal)"
  by (cases s) simp_all

lemma poll_source_cases:
  obtains (empty) "fetch_latest_items H (http e u) 5 = []"
  | (boot) "fetch_latest_items H (http e u) 5 \<noteq> []" "\<not> bootstrap_done e"
  | (ann) "fetch_latest_items H (http e u) 5 \<noteq> []" "bootstrap_done e"
  by blast

lemma poll_source_no_report: "Report \<notin> set (trace_of (poll_source H e (n, u, l) st f))"
proof (cases rule: poll_source_cases [of H e u])
  case empty
  then show ?thesis by (simp add: poll_source_empty)
next
  case boot
  then show ?thesis by (simp add: poll_source_bootstrap)
next
  case ann
  then show ?thesis
    using announce_items_no_report
    by (simp add: poll_source_announce Let_def)
qed

lemma poll_source_sent_other:
  "m \<noteq> n \<Longrightarrow> sent_for m (trace_of (poll_source H e (n, u, l) st f)) = []"
proof (cases rule: poll_source_cases [of H e u])
  case empty
  then show ?thesis by (simp add: poll_source_empty)
next
  case boot
  then show ?thesis by (simp add: poll_source_bootstrap)
next
  case ann
  assume "m \<noteq> n"
  with ann show ?thesis
    by (simp add: poll_source_announce Let_def sent_for_append announce_items_sent_other)
qed

lemma poll_source_quiet:
  "\<not> bootstrap_done e \<Longrightarrow> \<not> list_ex is_Send (trace_of (poll_source H e (n, u, l) st f))"
  by (cases "fetch_latest_items H (http e u) 5 = []")
    (simp_all add: poll_source_empty poll_source_bootstrap)

lemma poll_source_frame:
  "(\<forall>k. k \<noteq> n \<longrightarrow> state_of (poll_source H e (n, u, l) st f) k = st k) \<and>
   (file_of (poll_source H e (n, u, l) st f) = f \<or>
    (\<exists>d. file_of (poll_source H e (n, u, l) st f) = Doc d \<and> (\<forall>k. k \<noteq> n \<longrightarrow> d k = st k)))"
proof (cases rule: poll_source_cases [of H e u])
  case empty
  then show ?thesis by (simp add: poll_source_empty)
next
  case boot
  then show ?thesis by (simp add: poll_source_bootstrap)
next
  case ann
  let ?r = "announce_items e n l
                  (rev (filter (\<lambda>it. item_id it \<notin> known_of st n)
                     (fetch_latest_items H (http e u) 5)))
                  (known_of st n) st f"
  have "state_of (poll_source H e (n, u, l) st f) = state_of ?r"
    "file_of (poll_source H e (n, u, l) st f) = file_of ?r"
    using ann by (simp_all add: poll_source_announce Let_def)
  with announce_items_frame [of n e l _ "known_of st n" st f] show ?thesis by simp
qed

text \<open>The iteration that ends normally, in closed form.\<close>

lemma poll_source_normal:
  assumes "status_of (poll_source H e (n, u, l) st f) = Normal"
    and "fetch_latest_items H (http e u) 5 \<noteq> []" and "bootstrap_done e"
  shows "poll_source H e (n, u, l) st f =
      (Fetch n u #
         dispatches n l
           (rev (filter (\<lambda>it. item_id it \<notin> known_of st n) (fetch_latest_items H (http e u) 5)))
           (known_of st n) st @ [Sleep],
       (if filter (\<lambda>it. item_id it \<notin> known_of st n) (fetch_latest_items H (http e u) 5) = []
        then st
        else st(n \<mapsto> known_of st n \<union> item_id ` set (fetch_latest_items H (http e u) 5))),
       (if filter (\<lambda>it. item_id it \<notin> known_of st n) (fetch_latest_items H (http e u) 5) = []
        then f
        else Doc (st(n \<mapsto> known_of st n \<union> item_id ` set (fetch_latest_items H (http e u) 5)))),
       Normal)"
proof -
  let ?items = "fetch_latest_items H (http e u) 5"
  let ?new = "rev (filter (\<lambda>it. item_id it \<notin> known_of st n) ?items)"
  let ?r = "announce_items e n l ?new (known_of st n) st f"
  from assms have n: "status_of ?r = Normal"
    by (simp add: poll_source_announce Let_def split: if_splits)
  note c = announce_items_normal [OF n]
  have ids: "known_of st n \<union> item_id ` set ?new = known_of st n \<union> item_id ` set ?items"
    by auto
  have "poll_source H e (n, u, l) st f = (Fetch n u # trace_of ?r @ [Sleep], state_of ?r, file_of ?r, Normal)"
    using assms(2,3) n by (simp add: poll_source_announce Let_def)
  also have "\<dots> = (Fetch n u # dispatches n l ?new (known_of st n) st @ [Sleep],
       (if ?new = [] then st else st(n \<mapsto> known_of st n \<union> item_id ` set ?new)),
       (if ?new = [] then f else Doc (st(n \<mapsto> known_of st n \<union> item_id ` set ?new))),
       Normal)"
    by (subst c)+ simp
  finally show ?thesis unfolding ids by simp
qed

lemma poll_source_props:
  assumes "status_of (poll_source H e (n, u, l) st f) = Normal"
  shows "known_of (state_of (poll_source H e (n, u, l) st f)) n =
           known_of st n \<union> item_id ` set (fetch_latest_items H (http e u) 5)"
    and "file_of (poll_source H e (n, u, l) st f) = Doc (state_of (poll_source H e (n, u, l) st f)) \<or>
         (file_of (poll_source H e (n, u, l) st f) = f \<and>
          state_of (poll_source H e (n, u, l) st f) = st)"
    and "sent_for n (trace_of (poll_source H e (n, u, l) st f)) =
           (if bootstrap_done e
            then rev (filter (\<lambda>it. item_id it \<notin> known_of st n)
                        (fetch_latest_items H (http e u) 5))
            else [])"
proof -
  let ?items = "fetch_latest_items H (http e u) 5"
  let ?p = "poll_source H e (n, u, l) st f"
  have "known_of (state_of ?p) n = known_of st n \<union> item_id ` set ?items \<and>
      (file_of ?p = Doc (state_of ?p) \<or> (file_of ?p = f \<and> state_of ?p = st)) \<and>
      sent_for n (trace_of ?p) =
        (if bootstrap_done e then rev (filter (\<lambda>it. item_id it \<notin> known_of st n) ?items) else [])"
  proof (cases rule: poll_source_cases [of H e u])
    case empty
    then show ?thesis by (simp add: poll_source_empty)
  next
    case boot
    with assms show ?thesis by (simp add: poll_source_bootstrap split: if_splits)
  next
    case ann
    note c = poll_source_normal [OF assms ann]
    have "filter (\<lambda>it. item_id it \<notin> known_of st n) ?items = [] \<Longrightarrow>
        item_id ` set ?items \<subseteq> known_of st n"
      by (auto simp: filter_empty_conv)
    then show ?thesis
      by (subst c)+ (auto simp: ann sent_for_append dispatches_sent)
  qed
  then show "known_of (state_of ?p) n = known_of st n \<union> item_id ` set ?items"
    and "file_of ?p = Doc (state_of ?p) \<or> (file_of ?p = f \<and> state_of ?p = st)"
    and "sent_for n (trace_of ?p) =
        (if bootstrap_done e then rev (filter (\<lambda>it. item_id it \<notin> known_of st n) ?items) else [])"
    by blast+
qed

subsection \<open>The loop over the sources\<close>

lemma poll_sources_Cons:
  "poll_sources H e (s # ss) st f =
     (if status_of (poll_source H e s st f) = Raised then poll_source H e s st f
      else
        (trace_of (poll_source H e s st f) @
           trace_of (poll_sources H e ss (state_of (poll_source H e s st f))
                       (file_of (poll_source H e s st f))),
         snd (poll_sources H e ss (state_of (poll_source H e s st f))
                (file_of (poll_source H e s st f)))))"
  by (auto simp: split_beta Let_def prod_eq_iff)

declare poll_sources.simps(2) [simp del]

lemma poll_sources_Cons_normal:
  assumes "status_of (poll_sources H e (s # ss) st f) = Normal"
  shows "status_of (poll_source H e s st f) = Normal"
    and "status_of (poll_sources H e ss (state_of (poll_source H e s st f))
                      (file_of (poll_source H e s st f))) = Normal"
    and "poll_sources H e (s # ss) st f =
        (trace_of (poll_source H e s st f) @
           trace_of (poll_sources H e ss (state_of (poll_source H e s st f))
                       (file_of (poll_source H e s st f))),
         snd (poll_sources H e ss (state_of (poll_source H e s st f))
                (file_of (poll_source H e s st f))))"
  using assms by (simp_all add: poll_sources_Cons split: if_splits)

lemma poll_sources_no_report: "Report \<notin> set (trace_of (poll_sources H e ss st f))"
proof (induction ss arbitrary: st f)
  case Nil
  then show ?case by simp
next
  case (Cons s ss)
  obtain n u l where s: "s = (n, u, l)" by (cases s) auto
  from Cons.IH poll_source_no_report [of H e n u l st f] show ?case
    by (simp add: poll_sources_Cons s)
qed

lemma poll_sources_quiet:
  "\<not> bootstrap_done e \<Longrightarrow> \<not> list_ex is_Send (trace_of (poll_sources H e ss st f))"
proof (induction ss arbitrary: st f)
  case Nil
  then show ?case by simp
next
  case (Cons s ss)
  obtain n u l where s: "s = (n, u, l)" by (cases s) auto
  from Cons.IH [OF Cons.prems] poll_source_quiet [OF Cons.prems, of H n u l st f] show ?case
    by (simp add: poll_sources_Cons s)
qed

text \<open>
  Whatever raises, the loop leaves alone the entry of a name \<open>m\<close> when every source of
  that name has an empty fetch, and sends nothing for it.
\<close>

lemma poll_sources_keep:
  assumes "\<forall>(n, u, l) \<in> set ss. n = m \<longrightarrow> fetch_latest_items H (http e u) 5 = []"
  shows "state_of (poll_sources H e ss st f) m = st m \<and>
         sent_for m (trace_of (poll_sources H e ss st f)) = [] \<and>
         (file_of (poll_sources H e ss st f) = f \<or>
          (\<exists>d. file_of (poll_sources H e ss st f) = Doc d \<and> d m = st m))"
  using assms
proof (induction ss arbitrary: st f)
  case Nil
  then show ?case by simp
next
  case (Cons s ss)
  obtain n u l where s: "s = (n, u, l)" by (cases s) auto
  let ?p = "poll_source H e (n, u, l) st f"
  let ?r = "poll_sources H e ss (state_of ?p) (file_of ?p)"
  from Cons.prems have rest: "\<forall>(n, u, l) \<in> set ss. n = m \<longrightarrow> fetch_latest_items H (http e u) 5 = []"
    by simp
  have head: "state_of ?p m = st m \<and> sent_for m (trace_of ?p) = [] \<and>
      (file_of ?p = f \<or> (\<exists>d. file_of ?p = Doc d \<and> d m = st m))"
  proof (cases "n = m")
    case True
    with Cons.prems s have "fetch_latest_items H (http e u) 5 = []" by simp
    then show ?thesis by (simp add: poll_source_empty)
  next
    case False
    then have "m \<noteq> n" by simp
    with poll_source_frame [of n H e u l st f] poll_source_sent_other [OF this, of H e u l st f]
    show ?thesis by auto
  qed
  note ih = Cons.IH [OF rest, of "state_of ?p" "file_of ?p"]
  show ?case
  proof (cases "status_of ?p = Raised")
    case True
    with head show ?thesis by (simp add: poll_sources_Cons s)
  next
    case False
    from ih head have "state_of ?r m = st m" by simp
    moreover from ih head have "sent_for m (trace_of ?p @ trace_of ?r) = []"
      by (simp add: sent_for_append)
    moreover from ih head have "file_of ?r = f \<or> (\<exists>d. file_of ?r = Doc d \<and> d m = st m)"
      by auto
    ultimately show ?thesis using False by (simp add: poll_sources_Cons s)
  qed
qed

lemma poll_sources_frame:
  "m \<notin> fst ` set ss \<Longrightarrow>
     state_of (poll_sources H e ss st f) m = st m \<and>
     sent_for m (trace_of (poll_sources H e ss st f)) = [] \<and>
     (file_of (poll_sources H e ss st f) = f \<or>
      (\<exists>d. file_of (poll_sources H e ss st f) = Doc d \<and> d m = st m))"
  by (rule poll_sources_keep) force

lemma poll_sources_coherent:
  "status_of (poll_sources H e ss st f) = Normal \<Longrightarrow>
     file_of (poll_sources H e ss st f) = Doc (state_of (poll_sources H e ss st f)) \<or>
     (file_of (poll_sources H e ss st f) = f \<and> state_of (poll_sources H e ss st f) = st)"
proof (induction ss arbitrary: st f)
  case Nil
  then show ?case by simp
next
  case (Cons s ss)
  obtain n u l where s: "s = (n, u, l)" by (cases s) auto
  note n = poll_sources_Cons_normal [OF Cons.prems]
  from Cons.IH [OF n(2)] poll_source_props(2) [OF n(1) [unfolded s]] show ?case
    by (subst (1 2 3 4) n(3)) (auto simp: s)
qed

lemma poll_sources_source:
  assumes "status_of (poll_sources H e ss st f) = Normal"
    and "distinct (map fst ss)" and "(n, u, l) \<in> set ss"
  shows "known_of (state_of (poll_sources H e ss st f)) n =
           known_of st n \<union> item_id ` set (fetch_latest_items H (http e u) 5) \<and>
         sent_for n (trace_of (poll_sources H e ss st f)) =
           (if bootstrap_done e
            then rev (filter (\<lambda>it. item_id it \<notin> known_of st n)
                        (fetch_latest_items H (http e u) 5))
            else [])"
  using assms
proof (induction ss arbitrary: st f)
  case Nil
  then show ?case by simp
next
  case (Cons s ss)
  obtain n1 u1 l1 where s: "s = (n1, u1, l1)" by (cases s) auto
  let ?p = "poll_source H e (n1, u1, l1) st f"
  let ?r = "poll_sources H e ss (state_of ?p) (file_of ?p)"
  note nm = poll_sources_Cons_normal [OF Cons.prems(1), unfolded s]
  have res: "state_of (poll_sources H e (s # ss) st f) = state_of ?r"
    "trace_of (poll_sources H e (s # ss) st f) = trace_of ?p @ trace_of ?r"
    by (simp_all add: s nm(3))
  from Cons.prems(2) s have d: "distinct (map fst ss)" and n1: "n1 \<notin> fst ` set ss" by auto
  show ?case
  proof (cases "(n, u, l) = s")
    case True
    with s have eq: "n1 = n" "u1 = u" "l1 = l" by auto
    from n1 eq have "n \<notin> fst ` set ss" by simp
    from poll_sources_frame [OF this, of H e "state_of ?p" "file_of ?p"]
      poll_source_props(1,3) [OF nm(1)] eq
    show ?thesis unfolding res by (simp add: sent_for_append known_of_def)
  next
    case False
    with Cons.prems(3) have mem: "(n, u, l) \<in> set ss" by auto
    with n1 have ne: "n \<noteq> n1" by force
    from Cons.IH [OF nm(2) d mem] poll_source_frame [of n1 H e u1 l1 st f]
      poll_source_sent_other [OF ne, of H e u1 l1 st f] ne
    show ?thesis unfolding res by (simp add: sent_for_append known_of_def)
  qed
qed

lemma poll_sources_written:
  assumes "status_of (poll_sources H e ss st f) = Normal"
    and "(n, u, l) \<in> set ss" and "\<not> bootstrap_done e"
    and "fetch_latest_items H (http e u) 5 \<noteq> []"
  shows "file_of (poll_sources H e ss st f) = Doc (state_of (poll_sources H e ss st f))"
  using assms(1,2)
proof (induction ss arbitrary: st f)
  case Nil
  then show ?case by simp
next
  case (Cons s ss)
  obtain n1 u1 l1 where s: "s = (n1, u1, l1)" by (cases s) auto
  let ?p = "poll_source H e (n1, u1, l1) st f"
  let ?r = "poll_sources H e ss (state_of ?p) (file_of ?p)"
  note nm = poll_sources_Cons_normal [OF Cons.prems(1), unfolded s]
  have res: "state_of (poll_sources H e (s # ss) st f) = state_of ?r"
    "file_of (poll_sources H e (s # ss) st f) = file_of ?r"
    by (simp_all add: s nm(3))
  show ?case
  proof (cases "(n, u, l) = s")
    case True
    with s have eq: "n1 = n" "u1 = u" "l1 = l" by auto
    from nm(1) assms(3,4) eq have "file_of ?p = Doc (state_of ?p)"
      by (simp add: poll_source_bootstrap split: if_splits)
    with poll_sources_coherent [OF nm(2)] show ?thesis unfolding res by auto
  next
    case False
    with Cons.prems(2) have "(n, u, l) \<in> set ss" by auto
    from Cons.IH [OF nm(2) this] show ?thesis unfolding res .
  qed
qed

text \<open>The loop that ends normally, cut at one of its sources.\<close>

lemma poll_sources_split:
  assumes "status_of (poll_sources H e (pre @ s # suf) st f) = Normal"
  shows "status_of (poll_sources H e pre st f) = Normal"
    and "status_of (poll_source H e s (state_of (poll_sources H e pre st f))
                      (file_of (poll_sources H e pre st f))) = Normal"
    and "trace_of (poll_sources H e (pre @ s # suf) st f) =
           trace_of (poll_sources H e pre st f) @
           trace_of (poll_source H e s (state_of (poll_sources H e pre st f))
                       (file_of (poll_sources H e pre st f))) @
           trace_of (poll_sources H e suf
              (state_of (poll_source H e s (state_of (poll_sources H e pre st f))
                           (file_of (poll_sources H e pre st f))))
              (file_of (poll_source H e s (state_of (poll_sources H e pre st f))
                           (file_of (poll_sources H e pre st f)))))"
  using assms
proof (induction pre arbitrary: st f)
  case Nil
  {
    case 1 show ?case by simp
  next
    case 2 from poll_sources_Cons_normal(1) [of H e s suf st f] 2 show ?case by simp
  next
    case 3 from poll_sources_Cons_normal(3) [of H e s suf st f] 3 show ?case by simp
  }
next
  case (Cons a pre)
  {
    case 1
    then have n: "status_of (poll_sources H e (a # (pre @ s # suf)) st f) = Normal" by simp
    note c = poll_sources_Cons_normal [OF n]
    from Cons.IH(1) [OF c(2)] c(1) show ?case by (simp add: poll_sources_Cons)
  next
    case 2
    then have n: "status_of (poll_sources H e (a # (pre @ s # suf)) st f) = Normal" by simp
    note c = poll_sources_Cons_normal [OF n]
    from Cons.IH(1) [OF c(2)] c(1)
    have p: "poll_sources H e (a # pre) st f =
        (trace_of (poll_source H e a st f) @
           trace_of (poll_sources H e pre (state_of (poll_source H e a st f))
                       (file_of (poll_source H e a st f))),
         snd (poll_sources H e pre (state_of (poll_source H e a st f))
                (file_of (poll_source H e a st f))))"
      by (simp add: poll_sources_Cons)
    from Cons.IH(2) [OF c(2)] show ?case by (simp add: p)
  next
    case 3
    then have n: "status_of (poll_sources H e (a # (pre @ s # suf)) st f) = Normal" by simp
    note c = poll_sources_Cons_normal [OF n]
    from Cons.IH(1) [OF c(2)] c(1)
    have p: "poll_sources H e (a # pre) st f =
        (trace_of (poll_source H e a st f) @
           trace_of (poll_sources H e pre (state_of (poll_source H e a st f))
                       (file_of (poll_source H e a st f))),
         snd (poll_sources H e pre (state_of (poll_source H e a st f))
                (file_of (poll_source H e a st f))))"
      by (simp add: poll_sources_Cons)
    from Cons.IH(3) [OF c(2)] c(3) show ?case by (simp add: p)
  }
qed

subsection \<open>One invocation\<close>

lemma news_loop_resolved:
  "get_channel (notice_channel e) \<noteq> None \<Longrightarrow>
     news_loop H e srcs f =
       (Load # trace_of (poll_sources H e srcs (load_state srcs f) f) @
          (if status_of (poll_sources H e srcs (load_state srcs f) f) = Raised then [Report] else []),
        file_of (poll_sources H e srcs (load_state srcs f) f))"
  by (auto simp: news_loop_def split_beta Let_def split: option.splits)

lemma news_loop_status:
  "get_channel (notice_channel e) \<noteq> None \<Longrightarrow>
     Report \<notin> set (fst (news_loop H e srcs f)) \<longleftrightarrow>
     status_of (poll_sources H e srcs (load_state srcs f) f) = Normal"
  using poll_sources_no_report [of H e srcs "load_state srcs f" f]
  by (simp add: news_loop_resolved)

lemma news_loop_normal:
  "get_channel (notice_channel e) \<noteq> None \<Longrightarrow> Report \<notin> set (fst (news_loop H e srcs f)) \<Longrightarrow>
     news_loop H e srcs f =
       (Load # trace_of (poll_sources H e srcs (load_state srcs f) f),
        file_of (poll_sources H e srcs (load_state srcs f) f))"
  using news_loop_status [of e H srcs f] by (simp add: news_loop_resolved)

lemma news_loop_source:
  assumes "distinct (map fst srcs)" and "(n, u, l) \<in> set srcs"
    and "get_channel (notice_channel e) \<noteq> None"
    and "Report \<notin> set (fst (news_loop H e srcs f))"
  shows "persisted srcs (snd (news_loop H e srcs f)) n =
           persisted srcs f n \<union> item_id ` set (fetch_latest_items H (http e u) 5)"
    and "sent_for n (fst (news_loop H e srcs f)) =
           (if bootstrap_done e
            then rev (filter (\<lambda>it. item_id it \<notin> persisted srcs f n)
                        (fetch_latest_items H (http e u) 5))
            else [])"
proof -
  let ?r = "poll_sources H e srcs (load_state srcs f) f"
  from assms(3,4) have nm: "status_of ?r = Normal" by (simp add: news_loop_status)
  note nl = news_loop_normal [OF assms(3,4)]
  from poll_sources_coherent [OF nm] have p: "persisted srcs (file_of ?r) n = known_of (state_of ?r) n"
    by (auto simp: persisted_def load_state_def)
  note src = poll_sources_source [OF nm assms(1,2)]
  from src p show "persisted srcs (snd (news_loop H e srcs f)) n =
           persisted srcs f n \<union> item_id ` set (fetch_latest_items H (http e u) 5)"
    unfolding nl by (simp add: known_of_load_state)
  from src show "sent_for n (fst (news_loop H e srcs f)) =
           (if bootstrap_done e
            then rev (filter (\<lambda>it. item_id it \<notin> persisted srcs f n)
                        (fetch_latest_items H (http e u) 5))
            else [])"
    unfolding nl by (simp add: known_of_load_state)
qed

subsection \<open>The fetcher\<close>

lemma NEWS_SOURCES_distinct: "distinct (map fst NEWS_SOURCES)"
  by (simp add: NEWS_SOURCES_def)

lemma NEWS_SOURCES_length: "length NEWS_SOURCES = 4"
  by (simp add: NEWS_SOURCES_def)

lemma dedup_items_distinct:
  "distinct (map item_id items) \<Longrightarrow> item_id ` set items \<subseteq> seen \<Longrightarrow>
     distinct (map item_id (dedup_items H limit as seen items))"
proof (induction as arbitrary: seen items)
  case Nil
  then show ?case by simp
next
  case (Cons a as)
  obtain t h where a: "a = (t, h)" by (cases a) auto
  let ?key = "normalize_link H h"
  let ?items = "items @ [\<lparr>item_id = ?key, title = t, link = h\<rparr>]"
  show ?case
  proof (cases "?key \<in> seen")
    case True
    then show ?thesis using a Cons.IH [OF Cons.prems] by simp
  next
    case False
    with Cons.prems(2) have "?key \<notin> item_id ` set items" by blast
    with Cons.prems(1) have d: "distinct (map item_id ?items)" by simp
    from Cons.prems(2) have s: "item_id ` set ?items \<subseteq> insert ?key seen" by auto
    from Cons.IH [OF d s] d False a show ?thesis by (simp add: Let_def)
  qed
qed

lemma fetch_latest_items_distinct: "distinct (map item_id (fetch_latest_items H r limit))"
  by (cases r) (simp_all add: fetch_latest_items_def dedup_items_distinct)

lemma dedup_items_all:
  "\<forall>it \<in> set items. P it \<Longrightarrow>
   \<forall>(t, h) \<in> set as. P \<lparr>item_id = normalize_link H h, title = t, link = h\<rparr> \<Longrightarrow>
     \<forall>it \<in> set (dedup_items H limit as seen items). P it"
proof (induction as arbitrary: seen items)
  case Nil
  then show ?case by simp
next
  case (Cons a as)
  obtain t h where a: "a = (t, h)" by (cases a) auto
  let ?key = "normalize_link H h"
  let ?items = "items @ [\<lparr>item_id = ?key, title = t, link = h\<rparr>]"
  from Cons.prems(2) a have rest: "\<forall>(t, h) \<in> set as. P \<lparr>item_id = normalize_link H h, title = t, link = h\<rparr>"
    and here: "P \<lparr>item_id = ?key, title = t, link = h\<rparr>" by auto
  from Cons.prems(1) here have all: "\<forall>it \<in> set ?items. P it" by auto
  from Cons.IH [OF Cons.prems(1) rest, of seen] Cons.IH [OF all rest, of "insert ?key seen"] all a
  show ?case by (simp add: Let_def)
qed

lemma resolve_absolute: "\<not> startswith (resolve h) ''/''"
  by (simp add: resolve_def startswith_def BASE_def)

lemma resolve_idem: "resolve (resolve h) = resolve h"
  using resolve_absolute [of h] by (simp add: resolve_def [of "resolve h"])

lemma collect_anchors_resolved:
  "\<forall>(t, h) \<in> set (collect_anchors as). \<not> startswith h ''/'' \<and> news_link h \<and> t \<noteq> []"
proof (induction as)
  case Nil
  then show ?case by simp
next
  case (Cons a as)
  obtain t h where a: "a = (t, h)" by (cases a) auto
  from Cons.IH a resolve_absolute [of h] show ?case by (simp add: Let_def)
qed

lemma collect_anchors_append:
  "collect_anchors (xs @ ys) = collect_anchors xs @ collect_anchors ys"
proof (induction xs)
  case Nil
  then show ?case by simp
next
  case (Cons a xs)
  obtain t h where a: "a = (t, h)" by (cases a) auto
  from Cons.IH a show ?case by (simp add: Let_def)
qed

lemma collect_anchors_resolve:
  "collect_anchors ((t, resolve h) # as) = collect_anchors ((t, h) # as)"
  by (simp add: resolve_idem Let_def)

lemma fetch_latest_items_links:
  "\<forall>it \<in> set (fetch_latest_items H r limit).
     item_id it = normalize_link H (link it) \<and> \<not> startswith (link it) ''/''"
proof (cases r)
  case FetchError
  then show ?thesis by (simp add: fetch_latest_items_def)
next
  case (Page as)
  have "\<forall>it \<in> set (dedup_items H limit (collect_anchors as) {} []).
     item_id it = normalize_link H (link it) \<and> \<not> startswith (link it) ''/''"
    using collect_anchors_resolved [of as]
    by (intro dedup_items_all) auto
  with Page show ?thesis by (simp add: fetch_latest_items_def)
qed

lemma dedup_items_fresh:
  "distinct (map (\<lambda>a. normalize_link H (snd a)) as) \<Longrightarrow>
   (\<forall>a \<in> set as. normalize_link H (snd a) \<notin> seen) \<Longrightarrow>
   int (length items) < limit \<or> items = [] \<Longrightarrow>
     dedup_items H limit as seen items =
       items @ take (nat (max 1 (limit - int (length items)))) (map (mk_item H) as)"
proof (induction as arbitrary: seen items)
  case Nil
  then show ?case by simp
next
  case (Cons a as)
  obtain t h where a: "a = (t, h)" by (cases a) auto
  let ?key = "normalize_link H h"
  let ?it = "\<lparr>item_id = ?key, title = t, link = h\<rparr>"
  have it: "mk_item H a = ?it" by (simp add: a mk_item_def)
  from Cons.prems(2) a have fresh: "?key \<notin> seen" by simp
  show ?case
  proof (cases "int (length (items @ [?it])) \<ge> limit")
    case True
    then have "nat (max 1 (limit - int (length items))) = 1" by auto
    with True fresh a it show ?thesis by (simp add: Let_def)
  next
    case False
    from Cons.prems(1) a have d: "distinct (map (\<lambda>a. normalize_link H (snd a)) as)"
      and nk: "\<forall>b \<in> set as. normalize_link H (snd b) \<noteq> ?key" by force+
    from Cons.prems(2) nk have f: "\<forall>a \<in> set as. normalize_link H (snd a) \<notin> insert ?key seen"
      by auto
    from False have l: "int (length (items @ [?it])) < limit \<or> items @ [?it] = []" by simp
    from False obtain k where k: "nat (max 1 (limit - int (length items))) = Suc k"
      "nat (max 1 (limit - int (length (items @ [?it])))) = k"
      by (cases "nat (max 1 (limit - int (length items)))") (auto simp: max_def split: if_splits)
    from Cons.IH [OF d f l] False fresh a it k show ?thesis by (simp add: Let_def)
  qed
qed

lemma news_link_notice: "news_link (BASE @ ''/News/Notice'' @ s)"
  by (simp add: news_link_def BASE_def SEGS_def sublist_code prefix_code)

lemma collect_anchors_post:
  "[] \<notin> set ts \<Longrightarrow> collect_anchors (map post ts) = map (\<lambda>t. (t, link_of t)) ts"
proof (induction ts)
  case Nil
  then show ?case by simp
next
  case (Cons t ts)
  have "resolve (''/News/Notice/'' @ t) = link_of t"
    by (simp add: resolve_def startswith_def link_of_def)
  moreover have "news_link (link_of t)"
    using news_link_notice [of "''/'' @ t"] by (simp add: link_of_def)
  moreover from Cons.prems have "t \<noteq> []" and "[] \<notin> set ts" by auto
  ultimately show ?case using Cons.IH by (simp add: post_def Let_def del: append.simps append_Cons)
qed

lemma link_of_inj [simp]: "link_of s = link_of t \<longleftrightarrow> s = t"
  by (simp add: link_of_def)

lemma fetch_posts:
  assumes "inj_on H (link_of ` set ts)" and "distinct ts" and "[] \<notin> set ts"
  shows "fetch_latest_items H (Page (map post ts)) 5 = map (posted H) (take 5 ts)"
proof -
  let ?as = "map (\<lambda>t. (t, link_of t)) ts"
  have "distinct (map link_of ts)"
    using assms(2) by (simp add: distinct_map inj_on_def)
  then have "distinct (map H (map link_of ts))"
    using assms(1) by (subst distinct_map) simp
  then have d: "distinct (map (\<lambda>a. normalize_link H (snd a)) ?as)"
    by (simp add: comp_def normalize_link_def)
  have "dedup_items H 5 ?as {} [] = [] @ take (nat (max 1 (5 - int (length ([]::item list))))) (map (mk_item H) ?as)"
    by (rule dedup_items_fresh [OF d]) simp_all
  moreover have "\<And>xs. map (mk_item H) (map (\<lambda>t. (t, link_of t)) xs) = map (posted H) xs"
    by (simp add: mk_item_def posted_def normalize_link_def)
  ultimately show ?thesis
    using assms(3) by (simp add: fetch_latest_items_def collect_anchors_post take_map)
qed

lemma fetch_latest_items_error [simp]: "fetch_latest_items H FetchError limit = []"
  by (simp add: fetch_latest_items_def)

lemma collect_anchors_absolute:
  "startswith h ''/'' \<Longrightarrow>
     collect_anchors (pre @ (t, h) # suf) = collect_anchors (pre @ (t, BASE @ h) # suf)"
proof -
  assume "startswith h ''/''"
  then have r: "resolve h = BASE @ h" by (simp add: resolve_def)
  have "collect_anchors ((t, resolve h) # suf) = collect_anchors ((t, h) # suf)"
    by (rule collect_anchors_resolve)
  with r show ?thesis by (simp only: collect_anchors_append)
qed

subsection \<open>The worlds of the examples\<close>

lemma world_simps:
  "notice_channel (world ch gate ts) = ch"
  "bootstrap_done (world ch gate ts) = gate"
  "http (world ch gate ts) ''https://mabinogimobile.nexon.com/News/Notice'' = Page (map post ts)"
  "send_ok (world ch gate ts) = (\<lambda>n it. True)"
  "save_ok (world ch gate ts) = (\<lambda>n ids. True)"
  by (simp_all add: world_def)

lemma fetch_world:
  "inj_on H (link_of ` set ts) \<Longrightarrow> distinct ts \<Longrightarrow> [] \<notin> set ts \<Longrightarrow>
     fetch_latest_items H (http (world ch gate ts) ''https://mabinogimobile.nexon.com/News/Notice'') 5
       = map (posted H) (take 5 ts)"
  by (simp add: fetch_posts world_simps)

subsection \<open>The events of the process\<close>

lemma exec_Nil [simp]: "exec p [] = p"
  by (simp add: exec_def)

lemma exec_Cons [simp]: "exec p (ev # evs) = exec (step p ev) evs"
  by (simp add: exec_def)

lemma exec_append: "exec p (xs @ ys) = exec (exec p xs) ys"
  by (simp add: exec_def)

lemma step_stuck:
  "news_running p \<and> timers p = 0 \<and> \<not> flag p \<Longrightarrow>
     news_running (step p ev) \<and> timers (step p ev) = 0 \<and> \<not> flag (step p ev)"
  by (cases ev) (simp_all add: on_ready_def Let_def)

lemma exec_stuck:
  "news_running p \<and> timers p = 0 \<and> \<not> flag p \<Longrightarrow> \<not> flag (exec p evs)"
proof (induction evs arbitrary: p)
  case Nil
  then show ?case by simp
next
  case (Cons ev evs)
  from Cons.IH [OF step_stuck [OF Cons.prems]] show ?case by simp
qed

section \<open>An unresolved notice channel\<close>

text \<open>
  Claim C10. When \<^verbatim>\<open>get_channel(NOTICE_CHANNEL_ID)\<close> gives nothing, \<^verbatim>\<open>news_loop\<close>
  returns at once: its trace is empty, so there is no \<open>Load\<close>, no \<open>Fetch\<close> and no
  \<open>Save\<close>, whatever the flag is, and the file is the one it was.
\<close>

theorem news_loop_unresolved:
  "get_channel (notice_channel e) = None \<Longrightarrow> news_loop H e srcs f = ([], f)"
  by (simp add: news_loop_def)

theorem news_loop_unresolved_witness:
  "get_channel (notice_channel (world (Some (Other False)) False [''A''])) = None \<and>
   news_loop (\<lambda>u. u) (world (Some (Other False)) False [''A'']) [NOTICE] Unreadable
     = ([], Unreadable)"
  using news_loop_unresolved [of "world (Some (Other False)) False [''A'']" "\<lambda>u. u" "[NOTICE]" Unreadable]
  by (simp add: get_channel_def world_simps)

section \<open>The life of the bootstrap flag\<close>

text \<open>
  Claim C9. The flag starts false and the timer of the first \<^verbatim>\<open>on_ready\<close> sets it, but
  it does not stay set: \<^verbatim>\<open>on_ready\<close> assigns \<open>False\<close> to it each time the client
  dispatches the event, and schedules the timer only when it also starts \<^verbatim>\<open>news_loop\<close>.
  After a first \<^verbatim>\<open>on_ready\<close>, a first poll cycle and the timer, a second \<^verbatim>\<open>on_ready\<close>
  (the client dispatches it again after a reconnect) sets the flag back to false with no
  timer pending, and no later event sets it again.
\<close>

theorem flag_reset_by_on_ready:
  "\<not> flag initial \<and>
   flag (exec initial [OnReady, NewsCycle, TimerFires]) \<and>
   \<not> flag (exec initial [OnReady, NewsCycle, TimerFires, OnReady]) \<and>
   timers (exec initial [OnReady, NewsCycle, TimerFires, OnReady]) = 0 \<and>
   (\<forall>evs. \<not> flag (exec initial ([OnReady, NewsCycle, TimerFires, OnReady] @ evs)))"
proof -
  let ?p = "exec initial [OnReady, NewsCycle, TimerFires, OnReady]"
  have p: "news_running ?p \<and> timers ?p = 0 \<and> \<not> flag ?p"
    by (simp add: initial_def on_ready_def Let_def)
  have "\<forall>evs. \<not> flag (exec initial ([OnReady, NewsCycle, TimerFires, OnReady] @ evs))"
    unfolding exec_append using exec_stuck [OF p] by blast
  moreover have "\<not> flag initial" "flag (exec initial [OnReady, NewsCycle, TimerFires])"
    by (simp_all add: initial_def on_ready_def Let_def)
  ultimately show ?thesis using p by blast
qed

section \<open>Relative and absolute links\<close>

text \<open>
  Claim C7. An anchor whose href begins with \<^verbatim>\<open>/\<close> and the same anchor with the href in
  its resolved form, the site prefixed, give the same items, ids included, wherever the
  anchor stands in the page; and the id of every item that the fetcher returns is the
  digest of its link, which never begins with \<^verbatim>\<open>/\<close>.
\<close>

theorem relative_href_same_id:
  "startswith h ''/'' \<Longrightarrow>
     resolve h = BASE @ h \<and>
     fetch_latest_items H (Page (pre @ (t, h) # suf)) limit =
       fetch_latest_items H (Page (pre @ (t, BASE @ h) # suf)) limit \<and>
     (\<forall>it \<in> set (fetch_latest_items H r limit).
        item_id it = normalize_link H (link it) \<and> \<not> startswith (link it) ''/'')"
  using fetch_latest_items_links [of H r limit]
  by (simp add: fetch_latest_items_def collect_anchors_absolute resolve_def)

theorem relative_href_same_id_witness:
  "startswith ''/News/Notice/A'' ''/'' \<and>
   fetch_latest_items (\<lambda>u. u) (Page [(''A'', ''/News/Notice/A'')]) 5 = [posted (\<lambda>u. u) ''A''] \<and>
   fetch_latest_items (\<lambda>u. u) (Page [(''A'', BASE @ ''/News/Notice/A'')]) 5
     = [posted (\<lambda>u. u) ''A''] \<and>
   item_id (posted (\<lambda>u. u) ''A'') = normalize_link (\<lambda>u. u) (BASE @ ''/News/Notice/A'')"
proof -
  have s: "startswith ''/News/Notice/A'' ''/''" by (simp add: startswith_def)
  have f: "fetch_latest_items (\<lambda>u. u) (Page (map post [''A''])) 5 = map (posted (\<lambda>u. u)) (take 5 [''A''])"
    by (rule fetch_posts) simp_all
  from relative_href_same_id [OF s, of "\<lambda>u. u" "[]" "''A''" "[]" 5 "Page (map post [''A''])"] f s
  show ?thesis
    by (simp add: post_def posted_def link_of_def normalize_link_def)
qed

section \<open>The scenario\<close>

text \<open>
  Claim C4. One source \<open>Notice\<close>, no state file yet. The first invocation, with the flag
  false, fetches the posts A to E, newest first: it sends nothing and writes the ids of
  the five. The second, with the flag set, fetches the same five: it sends nothing and
  writes nothing, the file is the same. The third finds the new post F before A to E;
  the limit keeps F, A, B, C, D: it sends one message, for F, and writes the ids of the
  six. The digest is any function that does not collide on the six links.
\<close>

theorem scenario_notice:
  assumes "inj_on H (link_of ` {''A'', ''B'', ''C'', ''D'', ''E'', ''F''})"
  shows
    "news_loop H (world (Some TextChannel) False [''A'', ''B'', ''C'', ''D'', ''E'']) [NOTICE] Unreadable =
       ([Load, Fetch ''Notice'' ''https://mabinogimobile.nexon.com/News/Notice'',
         Save [''Notice'' \<mapsto> {H (link_of ''A''), H (link_of ''B''), H (link_of ''C''),
                                   H (link_of ''D''), H (link_of ''E'')}]],
        Doc [''Notice'' \<mapsto> {H (link_of ''A''), H (link_of ''B''), H (link_of ''C''),
                                   H (link_of ''D''), H (link_of ''E'')}]) \<and>
     news_loop H (world (Some TextChannel) True [''A'', ''B'', ''C'', ''D'', ''E'']) [NOTICE]
         (Doc [''Notice'' \<mapsto> {H (link_of ''A''), H (link_of ''B''), H (link_of ''C''),
                                   H (link_of ''D''), H (link_of ''E'')}]) =
       ([Load, Fetch ''Notice'' ''https://mabinogimobile.nexon.com/News/Notice'', Sleep],
        Doc [''Notice'' \<mapsto> {H (link_of ''A''), H (link_of ''B''), H (link_of ''C''),
                                   H (link_of ''D''), H (link_of ''E'')}]) \<and>
     fetch_latest_items H
         (http (world (Some TextChannel) True [''F'', ''A'', ''B'', ''C'', ''D'', ''E''])
            ''https://mabinogimobile.nexon.com/News/Notice'') 5 =
       [posted H ''F'', posted H ''A'', posted H ''B'', posted H ''C'', posted H ''D''] \<and>
     news_loop H (world (Some TextChannel) True [''F'', ''A'', ''B'', ''C'', ''D'', ''E'']) [NOTICE]
         (Doc [''Notice'' \<mapsto> {H (link_of ''A''), H (link_of ''B''), H (link_of ''C''),
                                   H (link_of ''D''), H (link_of ''E'')}]) =
       ([Load, Fetch ''Notice'' ''https://mabinogimobile.nexon.com/News/Notice'',
         Send ''Notice'' ''notice'' (posted H ''F''),
         Save [''Notice'' \<mapsto> {H (link_of ''A''), H (link_of ''B''), H (link_of ''C''),
                                   H (link_of ''D''), H (link_of ''E''), H (link_of ''F'')}],
         Sleep],
        Doc [''Notice'' \<mapsto> {H (link_of ''A''), H (link_of ''B''), H (link_of ''C''),
                                   H (link_of ''D''), H (link_of ''E''), H (link_of ''F'')}]) \<and>
     map (\<lambda>tr. sent_for ''Notice'' tr)
         (fst (run H [NOTICE]
            [world (Some TextChannel) False [''A'', ''B'', ''C'', ''D'', ''E''],
             world (Some TextChannel) True [''A'', ''B'', ''C'', ''D'', ''E''],
             world (Some TextChannel) True [''F'', ''A'', ''B'', ''C'', ''D'', ''E'']]
            Unreadable)) =
       [[], [], [posted H ''F'']]"
proof -
  let ?u = "''https://mabinogimobile.nexon.com/News/Notice''"
  let ?K = "{H (link_of ''A''), H (link_of ''B''), H (link_of ''C''), H (link_of ''D''),
             H (link_of ''E'')}"
  let ?w1 = "world (Some TextChannel) False [''A'', ''B'', ''C'', ''D'', ''E'']"
  let ?w2 = "world (Some TextChannel) True [''A'', ''B'', ''C'', ''D'', ''E'']"
  let ?w3 = "world (Some TextChannel) True [''F'', ''A'', ''B'', ''C'', ''D'', ''E'']"
  have inj5: "inj_on H (link_of ` set [''A'', ''B'', ''C'', ''D'', ''E''])"
    by (rule inj_on_subset [OF assms]) auto
  have inj6: "inj_on H (link_of ` set [''F'', ''A'', ''B'', ''C'', ''D'', ''E''])"
    by (rule inj_on_subset [OF assms]) auto
  have items1: "\<And>g. fetch_latest_items H
      (http (world (Some TextChannel) g [''A'', ''B'', ''C'', ''D'', ''E'']) ?u) 5 =
      [posted H ''A'', posted H ''B'', posted H ''C'', posted H ''D'', posted H ''E'']"
    using inj5 by (subst fetch_world) simp_all
  have items3: "fetch_latest_items H (http ?w3 ?u) 5 =
      [posted H ''F'', posted H ''A'', posted H ''B'', posted H ''C'', posted H ''D'']"
    using inj6 by (subst fetch_world) simp_all
  have fresh: "H (link_of ''F'') \<notin> ?K"
    using inj_on_eq_iff [OF assms, of "link_of ''F''"] by simp
  have ids: "\<And>t. item_id (posted H t) = H (link_of t)" by (simp add: posted_def)
  have ch: "\<And>g ts. get_channel (notice_channel (world (Some TextChannel) g ts)) = Some TextChannel"
    by (simp add: get_channel_def world_simps)
  have st: "load_state [(''Notice'', ?u, ''notice'')] Unreadable = [''Notice'' \<mapsto> {}]"
    by (simp add: load_state_def)
  have c1: "news_loop H ?w1 [NOTICE] Unreadable =
       ([Load, Fetch ''Notice'' ?u, Save [''Notice'' \<mapsto> ?K]], Doc [''Notice'' \<mapsto> ?K])"
    by (simp add: news_loop_def ch NOTICE_def st poll_sources.simps poll_source_bootstrap items1
        world_simps(2,5) ids known_of_def save_state_def)
  have c2: "news_loop H ?w2 [NOTICE] (Doc [''Notice'' \<mapsto> ?K]) =
       ([Load, Fetch ''Notice'' ?u, Sleep], Doc [''Notice'' \<mapsto> ?K])"
    by (simp add: news_loop_def ch NOTICE_def load_state_def poll_sources.simps
        poll_source_announce items1 world_simps(2,4,5) ids known_of_def Let_def)
  have c3: "news_loop H ?w3 [NOTICE] (Doc [''Notice'' \<mapsto> ?K]) =
       ([Load, Fetch ''Notice'' ?u, Send ''Notice'' ''notice'' (posted H ''F''),
         Save [''Notice'' \<mapsto> {H (link_of ''A''), H (link_of ''B''), H (link_of ''C''),
                                   H (link_of ''D''), H (link_of ''E''), H (link_of ''F'')}],
         Sleep],
        Doc [''Notice'' \<mapsto> {H (link_of ''A''), H (link_of ''B''), H (link_of ''C''),
                                   H (link_of ''D''), H (link_of ''E''), H (link_of ''F'')}])"
    using fresh
    by (simp add: news_loop_def ch NOTICE_def load_state_def poll_sources.simps
        poll_source_announce items3 world_simps(2,4,5) ids known_of_def Let_def save_state_def
        insert_commute)
  have r: "map (\<lambda>tr. sent_for ''Notice'' tr)
         (fst (run H [NOTICE] [?w1, ?w2, ?w3] Unreadable)) = [[], [], [posted H ''F'']]"
    by (simp add: c1 c2 c3)
  from c1 c2 items3 c3 r show ?thesis by (intro conjI)
qed

theorem scenario_notice_witness:
  "inj_on (\<lambda>u::string. u) (link_of ` {''A'', ''B'', ''C'', ''D'', ''E'', ''F''}) \<and>
   news_loop (\<lambda>u. u) (world (Some TextChannel) True [''F'', ''A'', ''B'', ''C'', ''D'', ''E''])
       [NOTICE]
       (Doc [''Notice'' \<mapsto> {link_of ''A'', link_of ''B'', link_of ''C'', link_of ''D'',
                                 link_of ''E''}]) =
     ([Load, Fetch ''Notice'' ''https://mabinogimobile.nexon.com/News/Notice'',
       Send ''Notice'' ''notice'' (posted (\<lambda>u. u) ''F''),
       Save [''Notice'' \<mapsto> {link_of ''A'', link_of ''B'', link_of ''C'', link_of ''D'',
                                 link_of ''E'', link_of ''F''}],
       Sleep],
      Doc [''Notice'' \<mapsto> {link_of ''A'', link_of ''B'', link_of ''C'', link_of ''D'',
                               link_of ''E'', link_of ''F''}]) \<and>
   map (\<lambda>tr. sent_for ''Notice'' tr)
       (fst (run (\<lambda>u. u) [NOTICE]
          [world (Some TextChannel) False [''A'', ''B'', ''C'', ''D'', ''E''],
           world (Some TextChannel) True [''A'', ''B'', ''C'', ''D'', ''E''],
           world (Some TextChannel) True [''F'', ''A'', ''B'', ''C'', ''D'', ''E'']]
          Unreadable)) =
     [[], [], [posted (\<lambda>u. u) ''F'']]"
proof -
  have i: "inj_on (\<lambda>u::string. u) (link_of ` {''A'', ''B'', ''C'', ''D'', ''E'', ''F''})"
    by (rule inj_on_id2)
  note t = scenario_notice [OF i]
  note c3 = t [THEN conjunct2, THEN conjunct2, THEN conjunct2, THEN conjunct1]
  note r = t [THEN conjunct2, THEN conjunct2, THEN conjunct2, THEN conjunct2]
  show ?thesis by (rule conjI [OF i conjI [OF c3 r]])
qed

section \<open>Isolation of a failed fetch\<close>

lemma agree_refl [simp]: "agree m st st"
  by (simp add: agree_def)




lemma fagree_Doc [simp]: "fagree m (Doc d) (Doc d') = agree m d d'"
  by (simp add: fagree_def)


lemma similarI:
  "(\<And>j. sent_for j (trace_of r) = sent_for j (trace_of r')) \<Longrightarrow> status_of r = status_of r' \<Longrightarrow>
   agree m (state_of r) (state_of r') \<Longrightarrow> fagree m (file_of r) (file_of r') \<Longrightarrow> similar m r r'"
  by (simp add: similar_def)









lemma world_quiet:
  "get_channel ch \<noteq> None \<Longrightarrow> Report \<notin> set (fst (news_loop H (world ch gate ts) srcs f))"
proof -
  assume c: "get_channel ch \<noteq> None"
  have a: "status_of (announce_items (world ch gate ts) n l its known st f) = Normal"
    for n l its known st f
    by (rule announce_items_ok) (simp_all add: world_simps)
  have p: "status_of (poll_source H (world ch gate ts) s st f) = Normal" for s st f
  proof -
    obtain n u l where s: "s = (n, u, l)" by (cases s) auto
    show ?thesis
      unfolding s
      by (cases rule: poll_source_cases [of H "world ch gate ts" u])
        (simp_all add: poll_source_empty poll_source_bootstrap poll_source_announce a Let_def
          world_simps(4,5))
  qed
  have "status_of (poll_sources H (world ch gate ts) srcs st f) = Normal" for st f
    by (induction srcs arbitrary: st f) (simp_all add: poll_sources_Cons p)
  with c show ?thesis by (simp add: news_loop_status world_simps(1))
qed


section \<open>The tick cycle\<close>

text \<open>
  Claim C5 as the specification states it fails: at 12:00, with the channel resolved, a
  hourly send that raises leaves the \<^verbatim>\<open>try\<close> block, and the field boss message is not
  sent.
\<close>

theorem tick_fires_counterexample:
  "get_channel (Some TextChannel) \<noteq> None \<and>
   tick_loop (Some TextChannel) (\<lambda>a. a \<noteq> HourTick 12 0) 12 0
     = [AlertRaised (HourTick 12 0), ReportTick] \<and>
   boss_fired (tick_loop (Some TextChannel) (\<lambda>a. a \<noteq> HourTick 12 0) 12 0) = []"
  by (simp add: tick_loop_def get_channel_def)

text \<open>
  Claim C5, as the code has it. When the alert channel is resolved, \<^verbatim>\<open>tick_loop\<close> at the
  local hour and minute calls the send of the hourly message, once and with that hour
  and minute, if and only if the minute is 0 and the hour is from 9 to 23. It calls the
  send of the field boss message, once, if and only if the minute is 0, the hour is one
  of 12, 18, 20, 22 and the hourly send did not raise. At 12:00 it sends both, as two
  messages, the hourly one first, when the hourly send returns; when it raises, the
  tick ends in \<^verbatim>\<open>report_error\<close> after the one call.
\<close>

theorem tick_fires:
  "get_channel ch \<noteq> None \<Longrightarrow>
     hourly_fired (tick_loop ch ok hour minute) =
       (if minute = 0 \<and> 9 \<le> hour \<and> hour \<le> 23 then [HourTick hour minute] else []) \<and>
     boss_fired (tick_loop ch ok hour minute) =
       (if minute = 0 \<and> hour \<in> {12, 18, 20, 22} \<and> ok (HourTick hour minute)
        then [FieldBoss hour minute] else []) \<and>
     tick_loop ch ok 12 0 =
       (if ok (HourTick 12 0)
        then SendAlert (HourTick 12 0) #
               (if ok (FieldBoss 12 0) then [SendAlert (FieldBoss 12 0)]
                else [AlertRaised (FieldBoss 12 0), ReportTick])
        else [AlertRaised (HourTick 12 0), ReportTick])"
  by (auto simp: tick_loop_def field_boss_def split: option.splits)

theorem tick_fires_witness:
  "get_channel (Some TextChannel) \<noteq> None \<and>
   tick_loop (Some TextChannel) (\<lambda>a. True) 12 0
     = [SendAlert (HourTick 12 0), SendAlert (FieldBoss 12 0)] \<and>
   hourly_fired (tick_loop (Some TextChannel) (\<lambda>a. True) 9 0) = [HourTick 9 0] \<and>
   boss_fired (tick_loop (Some TextChannel) (\<lambda>a. True) 9 0) = [] \<and>
   hourly_fired (tick_loop (Some TextChannel) (\<lambda>a. True) 12 1) = [] \<and>
   boss_fired (tick_loop (Some TextChannel) (\<lambda>a. False) 18 0) = []"
proof -
  have c: "get_channel (Some TextChannel) \<noteq> None" by (simp add: get_channel_def)
  from tick_fires [OF c, of "\<lambda>a. True" 12 0] tick_fires [OF c, of "\<lambda>a. True" 9 0]
    tick_fires [OF c, of "\<lambda>a. True" 12 1] tick_fires [OF c, of "\<lambda>a. False" 18 0] c
  show ?thesis by simp
qed

section \<open>Bootstrap suppression\<close>

text \<open>
  Claim C1 as the specification states it fails: the write of the state can raise. The
  flag is false, the file knows the post Z, the fetch finds the post A, and
  \<^verbatim>\<open>save_state\<close> raises: the invocation ends in \<^verbatim>\<open>report_error\<close> and the file holds what
  it held, without the id of A.
\<close>

theorem bootstrap_suppression_counterexample:
  "news_loop (\<lambda>u. u)
     ((world (Some TextChannel) False [''A''])\<lparr>save_ok := (\<lambda>n ids. False)\<rparr>)
     [NOTICE] (Doc [''Notice'' \<mapsto> {link_of ''Z''}]) =
     ([Load, Fetch ''Notice'' ''https://mabinogimobile.nexon.com/News/Notice'',
       SaveRaised [''Notice'' \<mapsto> {link_of ''Z'', link_of ''A''}], Report],
      Doc [''Notice'' \<mapsto> {link_of ''Z''}]) \<and>
   fetch_latest_items (\<lambda>u. u)
     (http ((world (Some TextChannel) False [''A''])\<lparr>save_ok := (\<lambda>n ids. False)\<rparr>)
        ''https://mabinogimobile.nexon.com/News/Notice'') 5 = [posted (\<lambda>u. u) ''A''] \<and>
   link_of ''A'' \<notin> persisted [NOTICE] (Doc [''Notice'' \<mapsto> {link_of ''Z''}]) ''Notice''"
proof -
  let ?u = "''https://mabinogimobile.nexon.com/News/Notice''"
  let ?e = "(world (Some TextChannel) False [''A''])\<lparr>save_ok := (\<lambda>n ids. False)\<rparr>"
  have h: "http ?e = http (world (Some TextChannel) False [''A''])" by simp
  have items: "fetch_latest_items (\<lambda>u. u) (http ?e ?u) 5 = [posted (\<lambda>u. u) ''A'']"
    unfolding h by (subst fetch_world) (simp_all add: inj_on_def)
  let ?f = "Doc [''Notice'' \<mapsto> {link_of ''Z''}]"
  let ?st = "[''Notice'' \<mapsto> {link_of ''Z''}]"
  have c: "get_channel (notice_channel ?e) \<noteq> None"
    by (simp add: get_channel_def world_simps)
  have b: "\<not> bootstrap_done ?e" by (simp add: world_simps)
  have ne: "fetch_latest_items (\<lambda>u. u) (http ?e ?u) 5 \<noteq> []"
    unfolding items by simp
  have ps: "poll_source (\<lambda>u. u) ?e (''Notice'', ?u, ''notice'') ?st ?f =
      ([Fetch ''Notice'' ?u, SaveRaised [''Notice'' \<mapsto> {link_of ''Z'', link_of ''A''}]],
       [''Notice'' \<mapsto> {link_of ''Z'', link_of ''A''}], ?f, Raised)"
    unfolding poll_source_bootstrap [OF ne b] items
    by (simp add: known_of_def posted_def insert_commute)
  have pss: "poll_sources (\<lambda>u. u) ?e [NOTICE] ?st ?f =
      ([Fetch ''Notice'' ?u, SaveRaised [''Notice'' \<mapsto> {link_of ''Z'', link_of ''A''}]],
       [''Notice'' \<mapsto> {link_of ''Z'', link_of ''A''}], ?f, Raised)"
    unfolding NOTICE_def poll_sources_Cons ps by simp
  have ld: "load_state [NOTICE] ?f = ?st" by (simp add: load_state_def)
  have "news_loop (\<lambda>u. u) ?e [NOTICE] ?f =
     ([Load, Fetch ''Notice'' ?u, SaveRaised [''Notice'' \<mapsto> {link_of ''Z'', link_of ''A''}], Report],
      ?f)"
    unfolding news_loop_resolved [OF c] ld pss by simp
  with items show ?thesis by simp
qed

text \<open>
  Claim C1, as the code has it. In an invocation of \<^verbatim>\<open>news_loop\<close> that reaches the loop
  over the sources (the notice channel is resolved) while \<^verbatim>\<open>_bootstrap_done\<close> is false,
  for every source of the registry whose fetch returns a non-empty list: the invocation
  calls no send at all, so none for that source; and if no write raises, so that the
  invocation does not end in \<^verbatim>\<open>report_error\<close>, the file written holds for that source
  the ids that the file held for it before (none if the file was unreadable) together
  with the ids of all fetched items.
\<close>

theorem bootstrap_suppression:
  assumes "distinct (map fst srcs)" and "(name, url, label) \<in> set srcs"
    and "get_channel (notice_channel e) \<noteq> None" and "\<not> bootstrap_done e"
    and "fetch_latest_items H (http e url) 5 \<noteq> []"
  shows "\<not> list_ex is_Send (fst (news_loop H e srcs f)) \<and>
         sent_for name (fst (news_loop H e srcs f)) = [] \<and>
         (Report \<notin> set (fst (news_loop H e srcs f)) \<longrightarrow>
            (\<exists>st. snd (news_loop H e srcs f) = Doc st \<and>
               known_of st name =
                 (case f of Doc st0 \<Rightarrow> known_of st0 name | Unreadable \<Rightarrow> {}) \<union>
                 item_id ` set (fetch_latest_items H (http e url) 5)))"
proof -
  let ?r = "poll_sources H e srcs (load_state srcs f) f"
  have quiet: "\<not> list_ex is_Send (fst (news_loop H e srcs f))"
    using poll_sources_quiet [OF assms(4), of H srcs "load_state srcs f" f] assms(3)
    by (simp add: news_loop_resolved)
  have "\<And>tr. \<not> list_ex is_Send tr \<Longrightarrow> sent_for name tr = []"
  proof -
    fix tr show "\<not> list_ex is_Send tr \<Longrightarrow> sent_for name tr = []"
      by (induction name tr rule: sent_for.induct) auto
  qed
  from this [OF quiet] have sent: "sent_for name (fst (news_loop H e srcs f)) = []" .
  have written: "\<exists>st. snd (news_loop H e srcs f) = Doc st \<and>
               known_of st name =
                 (case f of Doc st0 \<Rightarrow> known_of st0 name | Unreadable \<Rightarrow> {}) \<union>
                 item_id ` set (fetch_latest_items H (http e url) 5)"
    if r: "Report \<notin> set (fst (news_loop H e srcs f))"
  proof -
    from assms(3) r have nm: "status_of ?r = Normal" by (simp add: news_loop_status)
    note nl = news_loop_normal [OF assms(3) r]
    have doc: "snd (news_loop H e srcs f) = Doc (state_of ?r)"
      using poll_sources_written [OF nm assms(2,4,5)] nl by simp
    have p: "persisted srcs f name = (case f of Doc st0 \<Rightarrow> known_of st0 name | Unreadable \<Rightarrow> {})"
      by (cases f) simp_all
    have "persisted srcs (snd (news_loop H e srcs f)) name =
          persisted srcs f name \<union> item_id ` set (fetch_latest_items H (http e url) 5)"
      by (rule news_loop_source(1) [OF assms(1,2,3) r])
    with doc p show ?thesis by simp
  qed
  from quiet sent written show ?thesis by blast
qed

theorem bootstrap_suppression_witness:
  "\<not> list_ex is_Send
       (fst (news_loop (\<lambda>u. u) (world (Some TextChannel) False [''A'', ''B'', ''C'', ''D'', ''E''])
          [NOTICE] (Doc [''Notice'' \<mapsto> {link_of ''Z''}]))) \<and>
   Report \<notin> set
       (fst (news_loop (\<lambda>u. u) (world (Some TextChannel) False [''A'', ''B'', ''C'', ''D'', ''E''])
          [NOTICE] (Doc [''Notice'' \<mapsto> {link_of ''Z''}]))) \<and>
   (\<exists>st. snd (news_loop (\<lambda>u. u) (world (Some TextChannel) False [''A'', ''B'', ''C'', ''D'', ''E''])
          [NOTICE] (Doc [''Notice'' \<mapsto> {link_of ''Z''}])) = Doc st \<and>
      known_of st ''Notice'' =
        {link_of ''Z'', link_of ''A'', link_of ''B'', link_of ''C'', link_of ''D'', link_of ''E''})"
proof -
  let ?ts = "[''A'', ''B'', ''C'', ''D'', ''E'']"
  let ?e = "world (Some TextChannel) False ?ts"
  let ?u = "''https://mabinogimobile.nexon.com/News/Notice''"
  let ?f = "Doc [''Notice'' \<mapsto> {link_of ''Z''}]"
  have items: "fetch_latest_items (\<lambda>u. u) (http ?e ?u) 5 = map (posted (\<lambda>u. u)) ?ts"
    by (subst fetch_world) (simp_all add: inj_on_def)
  have d: "distinct (map fst [NOTICE])" by simp
  have m: "(''Notice'', ?u, ''notice'') \<in> set [NOTICE]" by (simp add: NOTICE_def)
  have c: "get_channel (notice_channel ?e) \<noteq> None"
    by (simp add: get_channel_def world_simps)
  have b: "\<not> bootstrap_done ?e" by (simp add: world_simps)
  have n: "fetch_latest_items (\<lambda>u. u) (http ?e ?u) 5 \<noteq> []" by (simp add: items)
  have q: "Report \<notin> set (fst (news_loop (\<lambda>u. u) ?e [NOTICE] ?f))"
    by (rule world_quiet) (simp add: get_channel_def)
  from bootstrap_suppression [OF d m c b n, of ?f] q show ?thesis
    by (simp add: items posted_def insert_commute)
qed

section \<open>Announcing once\<close>

lemma count_distinct:
  "distinct (map g xs) \<Longrightarrow>
     length (filter (\<lambda>y. g y = x) xs) = (if x \<in> g ` set xs then 1 else 0)"
  by (induction xs) auto

lemma news_loop_announced:
  assumes "distinct (map fst srcs)" and "(n, u, l) \<in> set srcs"
    and "get_channel (notice_channel e) \<noteq> None" and "bootstrap_done e"
    and "Report \<notin> set (fst (news_loop H e srcs f))"
  shows "announced n x (fst (news_loop H e srcs f)) =
           (if appears H e u x \<and> x \<notin> persisted srcs f n then 1 else 0)"
proof -
  let ?items = "fetch_latest_items H (http e u) 5"
  let ?new = "filter (\<lambda>it. item_id it \<notin> persisted srcs f n) ?items"
  have s: "sent_for n (fst (news_loop H e srcs f)) = rev ?new"
    using news_loop_source(2) [OF assms(1,2,3,5)] assms(4) by simp
  have "distinct (map item_id ?new)"
    using fetch_latest_items_distinct [of H "http e u" 5] by (rule distinct_map_filter)
  then have "length (filter (\<lambda>it. item_id it = x) ?new) =
      (if x \<in> item_id ` set ?new then 1 else 0)"
    by (rule count_distinct)
  moreover have "x \<in> item_id ` set ?new \<longleftrightarrow> appears H e u x \<and> x \<notin> persisted srcs f n"
    by (auto simp: appears_def)
  ultimately show ?thesis
    by (simp add: announced_def s rev_filter [symmetric])
qed

lemma run_Cons:
  "fst (run H srcs (e # es) f) =
     fst (news_loop H e srcs f) # fst (run H srcs es (snd (news_loop H e srcs f)))"
  by (simp add: split_beta Let_def)

lemma run_length: "length (fst (run H srcs es f)) = length es"
  by (induction es arbitrary: f) (simp_all add: split_beta Let_def)

lemma run_announced:
  assumes "distinct (map fst srcs)" and "(n, u, l) \<in> set srcs"
  shows "\<forall>e \<in> set es. get_channel (notice_channel e) \<noteq> None \<and> bootstrap_done e \<Longrightarrow>
         \<forall>tr \<in> set (fst (run H srcs es f)). Report \<notin> set tr \<Longrightarrow>
         k < length es \<Longrightarrow>
         announced n x (fst (run H srcs es f) ! k) =
           (if x \<notin> persisted srcs f n \<and> appears H (es ! k) u x \<and>
               (\<forall>j<k. \<not> appears H (es ! j) u x)
            then 1 else 0)"
proof (induction es arbitrary: f k)
  case Nil
  then show ?case by simp
next
  case (Cons e es)
  from Cons.prems(1) have c: "get_channel (notice_channel e) \<noteq> None" and b: "bootstrap_done e"
    and rest: "\<forall>e \<in> set es. get_channel (notice_channel e) \<noteq> None \<and> bootstrap_done e"
    by simp_all
  let ?f1 = "snd (news_loop H e srcs f)"
  note r = run_Cons [of H srcs e es f]
  from Cons.prems(2) have q1: "Report \<notin> set (fst (news_loop H e srcs f))"
    and q2: "\<forall>tr \<in> set (fst (run H srcs es ?f1)). Report \<notin> set tr"
    unfolding r by simp_all
  show ?case
  proof (cases k)
    case 0
    with r news_loop_announced [OF assms c b q1, of x] show ?thesis by auto
  next
    case (Suc k')
    with Cons.prems(3) have k': "k' < length es" by simp
    have p: "x \<notin> persisted srcs ?f1 n \<longleftrightarrow> x \<notin> persisted srcs f n \<and> \<not> appears H e u x"
      using news_loop_source(1) [OF assms c q1] by (auto simp: appears_def)
    have q: "(\<forall>j<Suc k'. \<not> appears H ((e # es) ! j) u x) \<longleftrightarrow>
        \<not> appears H e u x \<and> (\<forall>j<k'. \<not> appears H (es ! j) u x)"
      by (auto simp: less_Suc_eq_0_disj)
    from Cons.IH [OF rest q2 k'] r Suc p q show ?thesis by auto
  qed
qed

lemma news_loop_quiet:
  assumes "get_channel (notice_channel e) \<noteq> None"
    and "\<forall>n it. send_ok e n it" and "\<forall>n ids. save_ok e n ids"
  shows "Report \<notin> set (fst (news_loop H e srcs f))"
proof -
  have a: "status_of (announce_items e n l its known st f) = Normal" for n l its known st f
    by (rule announce_items_ok) (simp_all add: assms(2,3))
  have p: "status_of (poll_source H e s st f) = Normal" for s st f
  proof -
    obtain n u l where s: "s = (n, u, l)" by (cases s) auto
    show ?thesis
      unfolding s
      by (cases rule: poll_source_cases [of H e u])
        (simp_all add: poll_source_empty poll_source_bootstrap poll_source_announce a Let_def
          assms(3))
  qed
  have "status_of (poll_sources H e srcs st f) = Normal" for st f
    by (induction srcs arbitrary: st f) (simp_all add: poll_sources_Cons p)
  with assms(1) show ?thesis by (simp add: news_loop_status)
qed

lemma run_quiet:
  "\<forall>e \<in> set es. get_channel (notice_channel e) \<noteq> None \<and>
       (\<forall>n it. send_ok e n it) \<and> (\<forall>n ids. save_ok e n ids) \<Longrightarrow>
     \<forall>tr \<in> set (fst (run H srcs es f)). Report \<notin> set tr"
proof (induction es arbitrary: f)
  case Nil
  then show ?case by simp
next
  case (Cons e es)
  from Cons.prems have e: "get_channel (notice_channel e) \<noteq> None"
    "\<forall>n it. send_ok e n it" "\<forall>n ids. save_ok e n ids"
    and rest: "\<forall>e \<in> set es. get_channel (notice_channel e) \<noteq> None \<and>
       (\<forall>n it. send_ok e n it) \<and> (\<forall>n ids. save_ok e n ids)"
    by simp_all
  from news_loop_quiet [OF e, of H srcs f] Cons.IH [OF rest, of "snd (news_loop H e srcs f)"]
  show ?case unfolding run_Cons by simp
qed

lemma appears_world:
  "distinct ts \<Longrightarrow> [] \<notin> set ts \<Longrightarrow>
     appears (\<lambda>u. u) (world ch gate ts) ''https://mabinogimobile.nexon.com/News/Notice'' (link_of t)
       \<longleftrightarrow> t \<in> set (take 5 ts)"
proof -
  assume ts: "distinct ts" "[] \<notin> set ts"
  have f: "fetch_latest_items (\<lambda>u. u)
      (http (world ch gate ts) ''https://mabinogimobile.nexon.com/News/Notice'') 5
        = map (posted (\<lambda>u. u)) (take 5 ts)"
    using ts by (subst fetch_world) (simp_all add: inj_on_def)
  have "item_id ` set (map (posted (\<lambda>u. u)) (take 5 ts)) = link_of ` set (take 5 ts)"
    by (simp add: image_image posted_def)
  then show ?thesis
    by (simp only: appears_def f) (auto simp: image_iff)
qed

subsection \<open>An invocation in which a send raises\<close>

text \<open>
  The page lists the posts A, B, C, newest first, none of them known, and the send of
  the message for B raises. The loop over the new items goes from the oldest to the
  newest: the message for C is sent and the state written, the send for B raises, and
  the \<^verbatim>\<open>try\<close> block of lines 169 to 201 is left for \<^verbatim>\<open>report_error\<close>. Nothing is sent
  for A.
\<close>

lemma raised_cycle:
  "news_loop (\<lambda>u. u)
     ((world (Some TextChannel) True [''A'', ''B'', ''C''])
        \<lparr>send_ok := (\<lambda>n it. title it \<noteq> ''B'')\<rparr>)
     [NOTICE] Unreadable =
     ([Load, Fetch ''Notice'' ''https://mabinogimobile.nexon.com/News/Notice'',
       Send ''Notice'' ''notice'' (posted (\<lambda>u. u) ''C''),
       Save [''Notice'' \<mapsto> {link_of ''C''}],
       SendRaised ''Notice'' ''notice'' (posted (\<lambda>u. u) ''B''), Report],
      Doc [''Notice'' \<mapsto> {link_of ''C''}])"
proof -
  let ?u = "''https://mabinogimobile.nexon.com/News/Notice''"
  let ?w = "world (Some TextChannel) True [''A'', ''B'', ''C'']"
  let ?e = "?w\<lparr>send_ok := (\<lambda>n it. title it \<noteq> ''B'')\<rparr>"
  let ?st = "[''Notice'' \<mapsto> {}] :: dedup"
  have h: "http ?e = http ?w" by simp
  have items: "fetch_latest_items (\<lambda>u. u) (http ?e ?u) 5 = map (posted (\<lambda>u. u)) [''A'', ''B'', ''C'']"
    unfolding h by (subst fetch_world) (simp_all add: inj_on_def)
  have c: "get_channel (notice_channel ?e) \<noteq> None"
    by (simp add: get_channel_def world_simps)
  have b: "bootstrap_done ?e" by (simp add: world_simps)
  have ne: "fetch_latest_items (\<lambda>u. u) (http ?e ?u) 5 \<noteq> []"
    unfolding items by simp
  have sv: "save_ok ?e = (\<lambda>n ids. True)" by (simp add: world_simps)
  have sd: "send_ok ?e = (\<lambda>n it. title it \<noteq> ''B'')" by simp
  have an: "announce_items ?e ''Notice'' ''notice''
        [posted (\<lambda>u. u) ''C'', posted (\<lambda>u. u) ''B'', posted (\<lambda>u. u) ''A''] {} ?st Unreadable =
      ([Send ''Notice'' ''notice'' (posted (\<lambda>u. u) ''C''), Save [''Notice'' \<mapsto> {link_of ''C''}],
        SendRaised ''Notice'' ''notice'' (posted (\<lambda>u. u) ''B'')],
       [''Notice'' \<mapsto> {link_of ''C''}], Doc [''Notice'' \<mapsto> {link_of ''C''}], Raised)"
    unfolding announce_items.simps sv sd by (simp add: posted_def save_state_def Let_def)
  have ps: "poll_source (\<lambda>u. u) ?e (''Notice'', ?u, ''notice'') ?st Unreadable =
      ([Fetch ''Notice'' ?u,
        Send ''Notice'' ''notice'' (posted (\<lambda>u. u) ''C''), Save [''Notice'' \<mapsto> {link_of ''C''}],
        SendRaised ''Notice'' ''notice'' (posted (\<lambda>u. u) ''B'')],
       [''Notice'' \<mapsto> {link_of ''C''}], Doc [''Notice'' \<mapsto> {link_of ''C''}], Raised)"
    unfolding poll_source_announce [OF ne b] items
    by (simp add: known_of_def an del: announce_items.simps)
  have pss: "poll_sources (\<lambda>u. u) ?e [NOTICE] ?st Unreadable =
      ([Fetch ''Notice'' ?u,
        Send ''Notice'' ''notice'' (posted (\<lambda>u. u) ''C''), Save [''Notice'' \<mapsto> {link_of ''C''}],
        SendRaised ''Notice'' ''notice'' (posted (\<lambda>u. u) ''B'')],
       [''Notice'' \<mapsto> {link_of ''C''}], Doc [''Notice'' \<mapsto> {link_of ''C''}], Raised)"
    unfolding NOTICE_def poll_sources_Cons ps by simp
  have ld: "load_state [NOTICE] Unreadable = ?st" by (simp add: load_state_def NOTICE_def)
  show ?thesis
    unfolding news_loop_resolved [OF c] ld pss by simp
qed

text \<open>
  Claim C2 as the specification states it fails: a send can raise. In the first of two
  invocations the page lists A, B, C, none of them known, and the send for B raises;
  no crash comes between a send and the write after it. The id of A appears among the
  fetched items of this invocation and no message for it is sent. The second invocation
  finds the same page, all sends return, and the message for A is sent there.
\<close>

theorem announced_exactly_once_counterexample:
  "appears (\<lambda>u. u)
     ((world (Some TextChannel) True [''A'', ''B'', ''C''])
        \<lparr>send_ok := (\<lambda>n it. title it \<noteq> ''B'')\<rparr>)
     ''https://mabinogimobile.nexon.com/News/Notice'' (link_of ''A'') \<and>
   link_of ''A'' \<notin> persisted [NOTICE] Unreadable ''Notice'' \<and>
   map (announced ''Notice'' (link_of ''A''))
     (fst (run (\<lambda>u. u) [NOTICE]
        [(world (Some TextChannel) True [''A'', ''B'', ''C''])
           \<lparr>send_ok := (\<lambda>n it. title it \<noteq> ''B'')\<rparr>,
         world (Some TextChannel) True [''A'', ''B'', ''C'']] Unreadable)) = [0, 1]"
proof -
  let ?u = "''https://mabinogimobile.nexon.com/News/Notice''"
  let ?w = "world (Some TextChannel) True [''A'', ''B'', ''C'']"
  let ?e = "?w\<lparr>send_ok := (\<lambda>n it. title it \<noteq> ''B'')\<rparr>"
  let ?f = "Doc [''Notice'' \<mapsto> {link_of ''C''}]"
  have h: "http ?e = http ?w" by simp
  have a: "appears (\<lambda>u. u) ?e ?u (link_of ''A'')"
    unfolding appears_def h using appears_world [of "[''A'', ''B'', ''C'']" "Some TextChannel" True "''A''"]
    by (simp add: appears_def)
  have p: "link_of ''A'' \<notin> persisted [NOTICE] Unreadable ''Notice''" by simp
  have one: "announced ''Notice'' (link_of ''A'') (fst (news_loop (\<lambda>u. u) ?e [NOTICE] Unreadable)) = 0"
    unfolding raised_cycle by (simp add: announced_def posted_def)
  have d: "distinct (map fst [NOTICE])" by simp
  have m: "(''Notice'', ?u, ''notice'') \<in> set [NOTICE]" by (simp add: NOTICE_def)
  have c: "get_channel (notice_channel ?w) \<noteq> None" by (simp add: get_channel_def world_simps)
  have b: "bootstrap_done ?w" by (simp add: world_simps)
  have q: "Report \<notin> set (fst (news_loop (\<lambda>u. u) ?w [NOTICE] ?f))"
    by (rule world_quiet) (simp add: get_channel_def)
  have two: "announced ''Notice'' (link_of ''A'') (fst (news_loop (\<lambda>u. u) ?w [NOTICE] ?f)) = 1"
    unfolding news_loop_announced [OF d m c b q]
    using appears_world [of "[''A'', ''B'', ''C'']" "Some TextChannel" True "''A''"]
    by (simp add: known_of_def)
  have "fst (run (\<lambda>u. u) [NOTICE] [?e, ?w] Unreadable) =
      [fst (news_loop (\<lambda>u. u) ?e [NOTICE] Unreadable), fst (news_loop (\<lambda>u. u) ?w [NOTICE] ?f)]"
    unfolding run_Cons by (simp add: raised_cycle)
  with one two a p show ?thesis by simp
qed

text \<open>
  Claim C2, as the code has it. Take successive invocations of \<^verbatim>\<open>news_loop\<close>, each
  running on the file the one before left, all with the flag set and the channel
  resolved, none of them ending in \<^verbatim>\<open>report_error\<close> (no send and no write raises), and
  an id that is not among the known ids persisted for a source of the registry at the
  start. In every invocation the number of messages for that source with that id is 1
  if the id is among the fetched items of this invocation and of no earlier one, and 0
  otherwise: it is announced once, in the first invocation in which it appears, not
  before, and never again.
\<close>

theorem announced_exactly_once:
  assumes "distinct (map fst srcs)" and "(n, u, l) \<in> set srcs"
    and "\<forall>e \<in> set es. get_channel (notice_channel e) \<noteq> None \<and> bootstrap_done e"
    and "\<forall>tr \<in> set (fst (run H srcs es f)). Report \<notin> set tr"
    and "x \<notin> persisted srcs f n" and "k < length es"
  shows "announced n x (fst (run H srcs es f) ! k) =
           (if appears H (es ! k) u x \<and> (\<forall>j<k. \<not> appears H (es ! j) u x) then 1 else 0)"
  using run_announced [OF assms(1,2,3,4,6), of x] assms(5) by simp

theorem announced_exactly_once_witness:
  "announced ''Notice'' (link_of ''B'')
     (fst (run (\<lambda>u. u) [NOTICE]
        [world (Some TextChannel) True [''A''], world (Some TextChannel) True [''B'', ''A''],
         world (Some TextChannel) True [''B'', ''A'']] Unreadable) ! 0) = 0 \<and>
   announced ''Notice'' (link_of ''B'')
     (fst (run (\<lambda>u. u) [NOTICE]
        [world (Some TextChannel) True [''A''], world (Some TextChannel) True [''B'', ''A''],
         world (Some TextChannel) True [''B'', ''A'']] Unreadable) ! 1) = 1 \<and>
   announced ''Notice'' (link_of ''B'')
     (fst (run (\<lambda>u. u) [NOTICE]
        [world (Some TextChannel) True [''A''], world (Some TextChannel) True [''B'', ''A''],
         world (Some TextChannel) True [''B'', ''A'']] Unreadable) ! 2) = 0"
proof -
  let ?es = "[world (Some TextChannel) True [''A''], world (Some TextChannel) True [''B'', ''A''],
         world (Some TextChannel) True [''B'', ''A'']]"
  let ?u = "''https://mabinogimobile.nexon.com/News/Notice''"
  have d: "distinct (map fst [NOTICE])" by simp
  have m: "(''Notice'', ?u, ''notice'') \<in> set [NOTICE]" by (simp add: NOTICE_def)
  have g: "\<forall>e \<in> set ?es. get_channel (notice_channel e) \<noteq> None \<and> bootstrap_done e"
    by (simp add: world_simps get_channel_def)
  have q: "\<forall>tr \<in> set (fst (run (\<lambda>u. u) [NOTICE] ?es Unreadable)). Report \<notin> set tr"
    by (rule run_quiet) (simp add: world_simps get_channel_def)
  have x: "link_of ''B'' \<notin> persisted [NOTICE] Unreadable ''Notice''" by simp
  have a: "\<not> appears (\<lambda>u. u) (world (Some TextChannel) True [''A'']) ?u (link_of ''B'')"
    "appears (\<lambda>u. u) (world (Some TextChannel) True [''B'', ''A'']) ?u (link_of ''B'')"
    by (simp_all add: appears_world)
  note t = announced_exactly_once [OF d m g q x]
  have "announced ''Notice'' (link_of ''B'') (fst (run (\<lambda>u. u) [NOTICE] ?es Unreadable) ! 0) = 0"
    using t [of 0] a by simp
  moreover
  have "announced ''Notice'' (link_of ''B'') (fst (run (\<lambda>u. u) [NOTICE] ?es Unreadable) ! 1) = 1"
    using t [of 1] a by simp
  moreover
  have "announced ''Notice'' (link_of ''B'') (fst (run (\<lambda>u. u) [NOTICE] ?es Unreadable) ! 2) = 0"
    using t [of 2] a by (simp add: numeral_2_eq_2 less_Suc_eq)
  ultimately show ?thesis by (intro conjI)
qed

section \<open>The order of the effects\<close>

lemma announce_items_take:
  "status_of (announce_items e n l its known st f) = Normal \<Longrightarrow>
     status_of (announce_items e n l (take k its) known st f) = Normal"
proof (induction its arbitrary: k known st f)
  case Nil
  then show ?case by simp
next
  case (Cons it its)
  let ?k = "insert (item_id it) known"
  let ?s = "st(n \<mapsto> ?k)"
  from Cons.prems have ok: "send_ok e n it" "save_ok e n ?k"
    by (auto simp: Let_def split: if_splits)
  then have step: "\<And>xs. announce_items e n l (it # xs) known st f =
        (Send n l it # Save ?s # trace_of (announce_items e n l xs ?k ?s (Doc ?s)),
         snd (announce_items e n l xs ?k ?s (Doc ?s)))"
    by (simp add: Let_def split_beta save_state_def)
  from Cons.prems have rest: "status_of (announce_items e n l its ?k ?s (Doc ?s)) = Normal"
    unfolding step by simp
  show ?case
  proof (cases k)
    case 0
    then show ?thesis by simp
  next
    case (Suc j)
    have "status_of (announce_items e n l (take j its) ?k ?s (Doc ?s)) = Normal"
      by (rule Cons.IH [OF rest])
    then show ?thesis unfolding Suc take_Suc_Cons step by simp
  qed
qed

lemma poll_sources_split_snd:
  "status_of (poll_sources H e (pre @ s # suf) st f) = Normal \<Longrightarrow>
     snd (poll_sources H e (pre @ s # suf) st f) =
       snd (poll_sources H e suf
              (state_of (poll_source H e s (state_of (poll_sources H e pre st f))
                           (file_of (poll_sources H e pre st f))))
              (file_of (poll_source H e s (state_of (poll_sources H e pre st f))
                           (file_of (poll_sources H e pre st f)))))"
proof (induction pre arbitrary: st f)
  case Nil
  from poll_sources_Cons_normal(3) [of H e s suf st f] Nil show ?case by simp
next
  case (Cons a pre)
  then have n: "status_of (poll_sources H e (a # (pre @ s # suf)) st f) = Normal" by simp
  note c = poll_sources_Cons_normal [OF n]
  have h: "poll_sources H e (a # pre) st f =
      (trace_of (poll_source H e a st f) @
         trace_of (poll_sources H e pre (state_of (poll_source H e a st f))
                     (file_of (poll_source H e a st f))),
       snd (poll_sources H e pre (state_of (poll_source H e a st f))
              (file_of (poll_source H e a st f))))"
    using c(1) by (simp add: poll_sources_Cons)
  have "snd (poll_sources H e ((a # pre) @ s # suf) st f) =
      snd (poll_sources H e (pre @ s # suf) (state_of (poll_source H e a st f))
             (file_of (poll_source H e a st f)))"
    using c(3) by simp
  also note Cons.IH [OF c(2)]
  finally show ?case unfolding h by simp
qed

lemma poll_source_starts:
  "take 1 (trace_of (poll_source H e (n, u, l) st f)) = [Fetch n u]"
  by (cases rule: poll_source_cases [of H e u])
    (simp_all add: poll_source_empty poll_source_bootstrap poll_source_announce Let_def)

lemma poll_sources_starts:
  "take 1 (trace_of (poll_sources H e ss st f)) =
     (case ss of [] \<Rightarrow> [] | s # rest \<Rightarrow> [Fetch (fst s) (fst (snd s))])"
proof (cases ss)
  case Nil
  then show ?thesis by simp
next
  case (Cons s rest)
  obtain n u l where s: "s = (n, u, l)" by (cases s) auto
  from poll_source_starts [of H e n u l st f]
  obtain tl where t: "trace_of (poll_source H e (n, u, l) st f) = Fetch n u # tl"
    by (cases "trace_of (poll_source H e (n, u, l) st f)") simp_all
  show ?thesis unfolding Cons s by (simp add: poll_sources_Cons t)
qed

text \<open>
  The invocation of \<^verbatim>\<open>news_loop\<close> seen from one source of the registry, when the flag is
  set and the invocation does not end in \<^verbatim>\<open>report_error\<close>.
\<close>

lemma news_loop_decomposed:
  assumes d: "distinct (map fst srcs)" and srcs: "srcs = pre @ (n, u, l) # suf"
    and c: "get_channel (notice_channel e) \<noteq> None" and b: "bootstrap_done e"
    and q: "Report \<notin> set (fst (news_loop H e srcs f))"
    and st: "st = state_before H e srcs pre f" and fb: "fb = file_before H e srcs pre f"
    and known: "known = known_of st n" and items: "items = fetch_latest_items H (http e u) 5"
    and new: "new = rev (filter (\<lambda>it. item_id it \<notin> known) items)"
    and st': "st' = (if new = [] then st else st(n \<mapsto> known \<union> item_id ` set new))"
    and f': "f' = (if new = [] then fb else Doc st')"
  shows "known = (case f of Doc st0 \<Rightarrow> known_of st0 n | Unreadable \<Rightarrow> {})"
    and "poll_source H e (n, u, l) st fb =
           (Fetch n u # dispatches n l new known st @ (if items = [] then [] else [Sleep]),
            st', f', Normal)"
    and "fst (news_loop H e srcs f) =
           Load # trace_before H e srcs pre f @
           Fetch n u # dispatches n l new known st @ (if items = [] then [] else [Sleep]) @
           trace_of (poll_sources H e suf st' f')"
    and "snd (news_loop H e srcs f) = file_of (poll_sources H e suf st' f')"
    and "sent_for n (trace_before H e srcs pre f) = []"
    and "sent_for n (trace_of (poll_sources H e suf st' f')) = []"
    and "\<forall>k. 0 < k \<and> k \<le> length new \<longrightarrow>
           announce_items e n l (take k new) known st fb =
             (dispatches n l (take k new) known st,
              st(n \<mapsto> known \<union> item_id ` set (take k new)),
              Doc (st(n \<mapsto> known \<union> item_id ` set (take k new))), Normal)"
proof -
  let ?ini = "load_state srcs f"
  let ?p = "poll_sources H e pre ?ini f"
  from c q have nm: "status_of (poll_sources H e (pre @ (n, u, l) # suf) ?ini f) = Normal"
    by (simp add: news_loop_status srcs)
  note split = poll_sources_split [OF nm]
  have stp: "st = state_of ?p" and fbp: "fb = file_of ?p"
    by (simp_all add: st fb state_before_def file_before_def)
  from d have np: "n \<notin> fst ` set pre" and ns: "n \<notin> fst ` set suf"
    by (auto simp: srcs)
  note fr = poll_sources_frame [OF np, of H e ?ini f]
  from fr have kn: "known = persisted srcs f n"
    by (simp add: known stp known_of_def persisted_def)
  then show k: "known = (case f of Doc st0 \<Rightarrow> known_of st0 n | Unreadable \<Rightarrow> {})"
    by (cases f) simp_all
  from fr show sp: "sent_for n (trace_before H e srcs pre f) = []"
    by (simp add: trace_before_def)
  have nw: "(filter (\<lambda>it. item_id it \<notin> known_of st n) (fetch_latest_items H (http e u) 5) = [])
      \<longleftrightarrow> new = []"
    by (simp add: new known items)
  have ids: "known_of st n \<union> item_id ` set (fetch_latest_items H (http e u) 5)
      = known \<union> item_id ` set new"
    by (auto simp: new known items)
  have sn: "status_of (poll_source H e (n, u, l) st fb) = Normal"
    using split(2) by (simp add: stp fbp)
  show ps: "poll_source H e (n, u, l) st fb =
           (Fetch n u # dispatches n l new known st @ (if items = [] then [] else [Sleep]),
            st', f', Normal)"
  proof (cases "items = []")
    case True
    then have "new = []" by (simp add: new)
    with True show ?thesis
      by (simp add: poll_source_empty items [symmetric] st' f')
  next
    case False
    then have ne: "fetch_latest_items H (http e u) 5 \<noteq> []" by (simp add: items)
    show ?thesis
      unfolding poll_source_normal [OF sn ne b] nw ids
      using False by (simp add: st' f' new known items)
  qed
  have tr: "trace_of (poll_sources H e srcs ?ini f) =
      trace_of ?p @ trace_of (poll_source H e (n, u, l) st fb) @
      trace_of (poll_sources H e suf (state_of (poll_source H e (n, u, l) st fb))
                  (file_of (poll_source H e (n, u, l) st fb)))"
    using split(3) by (simp add: srcs stp fbp)
  show "fst (news_loop H e srcs f) =
           Load # trace_before H e srcs pre f @
           Fetch n u # dispatches n l new known st @ (if items = [] then [] else [Sleep]) @
           trace_of (poll_sources H e suf st' f')"
    unfolding news_loop_normal [OF c q] tr ps
    by (simp add: trace_before_def)
  have "snd (poll_sources H e srcs ?ini f) =
      snd (poll_sources H e suf (state_of (poll_source H e (n, u, l) st fb))
             (file_of (poll_source H e (n, u, l) st fb)))"
    using poll_sources_split_snd [OF nm] by (simp add: srcs stp fbp)
  then show "snd (news_loop H e srcs f) = file_of (poll_sources H e suf st' f')"
    unfolding news_loop_normal [OF c q] ps by simp
  from poll_sources_frame [OF ns, of H e st' f']
  show "sent_for n (trace_of (poll_sources H e suf st' f')) = []" by simp
  show "\<forall>k. 0 < k \<and> k \<le> length new \<longrightarrow>
           announce_items e n l (take k new) known st fb =
             (dispatches n l (take k new) known st,
              st(n \<mapsto> known \<union> item_id ` set (take k new)),
              Doc (st(n \<mapsto> known \<union> item_id ` set (take k new))), Normal)"
  proof (intro allI impI)
    fix k assume k: "0 < k \<and> k \<le> length new"
    then have nn: "new \<noteq> []" by auto
    then have ne: "fetch_latest_items H (http e u) 5 \<noteq> []" by (auto simp: new items)
    from sn have "status_of (announce_items e n l new known st fb) = Normal"
      by (simp add: poll_source_announce [OF ne b] Let_def new known items split: if_splits)
    then have "status_of (announce_items e n l (take k new) known st fb) = Normal"
      by (rule announce_items_take)
    from announce_items_normal [OF this] k nn
    show "announce_items e n l (take k new) known st fb =
             (dispatches n l (take k new) known st,
              st(n \<mapsto> known \<union> item_id ` set (take k new)),
              Doc (st(n \<mapsto> known \<union> item_id ` set (take k new))), Normal)"
      by simp
  qed
qed

text \<open>
  Claim C3 as the specification states it fails: a send can raise. The flag is set, the
  page lists A, B, C, newest first, none of them known: the new items are C, B, A, the
  oldest first. The message for C is sent and the state written; the send for B raises,
  its id is neither added nor written, and the invocation ends in \<^verbatim>\<open>report_error\<close>: the
  item A is not processed at all.
\<close>

theorem dispatch_then_persist_counterexample:
  "news_loop (\<lambda>u. u)
     ((world (Some TextChannel) True [''A'', ''B'', ''C''])
        \<lparr>send_ok := (\<lambda>n it. title it \<noteq> ''B'')\<rparr>)
     [NOTICE] Unreadable =
     ([Load, Fetch ''Notice'' ''https://mabinogimobile.nexon.com/News/Notice'',
       Send ''Notice'' ''notice'' (posted (\<lambda>u. u) ''C''),
       Save [''Notice'' \<mapsto> {link_of ''C''}],
       SendRaised ''Notice'' ''notice'' (posted (\<lambda>u. u) ''B''), Report],
      Doc [''Notice'' \<mapsto> {link_of ''C''}]) \<and>
   bootstrap_done
     ((world (Some TextChannel) True [''A'', ''B'', ''C''])
        \<lparr>send_ok := (\<lambda>n it. title it \<noteq> ''B'')\<rparr>) \<and>
   rev (filter (\<lambda>it. item_id it \<notin> persisted [NOTICE] Unreadable ''Notice'')
     (fetch_latest_items (\<lambda>u. u)
        (http ((world (Some TextChannel) True [''A'', ''B'', ''C''])
                 \<lparr>send_ok := (\<lambda>n it. title it \<noteq> ''B'')\<rparr>)
           ''https://mabinogimobile.nexon.com/News/Notice'') 5)) =
     [posted (\<lambda>u. u) ''C'', posted (\<lambda>u. u) ''B'', posted (\<lambda>u. u) ''A'']"
proof -
  let ?u = "''https://mabinogimobile.nexon.com/News/Notice''"
  let ?w = "world (Some TextChannel) True [''A'', ''B'', ''C'']"
  let ?e = "?w\<lparr>send_ok := (\<lambda>n it. title it \<noteq> ''B'')\<rparr>"
  have h: "http ?e = http ?w" by simp
  have items: "fetch_latest_items (\<lambda>u. u) (http ?e ?u) 5 = map (posted (\<lambda>u. u)) [''A'', ''B'', ''C'']"
    unfolding h by (subst fetch_world) (simp_all add: inj_on_def)
  have b: "bootstrap_done ?e" by (simp add: world_simps)
  have n: "rev (filter (\<lambda>it. item_id it \<notin> persisted [NOTICE] Unreadable ''Notice'')
      (fetch_latest_items (\<lambda>u. u) (http ?e ?u) 5)) =
     [posted (\<lambda>u. u) ''C'', posted (\<lambda>u. u) ''B'', posted (\<lambda>u. u) ''A'']"
    unfolding items by simp
  from raised_cycle b n show ?thesis by (intro conjI)
qed

text \<open>
  Claim C3, as the code has it. Take an invocation of \<^verbatim>\<open>news_loop\<close> with the flag set
  and the channel resolved that does not end in \<^verbatim>\<open>report_error\<close> (no send and no write
  raises), and a source of the registry; \<open>st\<close> and \<open>fb\<close> are the state and the file when
  the loop reaches the source, \<open>known\<close> its known set in \<open>st\<close>, which is the one the
  file held for it at the start, and \<open>new\<close> the fetched items whose id is not in
  \<open>known\<close>, in the reverse of the fetch order (the oldest new item first). Then the
  trace of the invocation is: the load, the effects of the sources before, the fetch,
  then for each item of \<open>new\<close> in turn the message for it followed at once by the write
  of the whole state, which is \<open>st\<close> with the known set of the source enlarged by the
  ids of the items processed so far, then the sleep if the fetch was not empty, then
  the effects of the sources after. No other message for the source is in the trace.
  After the first \<open>k\<close> items the file holds that whole state, and after the iteration
  the state and the file are those with all the ids of \<open>new\<close>.
\<close>

theorem dispatch_then_persist:
  assumes "distinct (map fst (pre @ (n, u, l) # suf))"
    and "get_channel (notice_channel e) \<noteq> None" and "bootstrap_done e"
    and "Report \<notin> set (fst (news_loop H e (pre @ (n, u, l) # suf) f))"
  shows
    "let srcs = pre @ (n, u, l) # suf;
         st = state_before H e srcs pre f;
         fb = file_before H e srcs pre f;
         known = known_of st n;
         items = fetch_latest_items H (http e u) 5;
         new = rev (filter (\<lambda>it. item_id it \<notin> known) items);
         st' = (if new = [] then st else st(n \<mapsto> known \<union> item_id ` set new));
         f' = (if new = [] then fb else Doc st')
     in known = (case f of Doc st0 \<Rightarrow> known_of st0 n | Unreadable \<Rightarrow> {}) \<and>
        fst (news_loop H e srcs f) =
          Load # trace_before H e srcs pre f @
          Fetch n u # dispatches n l new known st @ (if items = [] then [] else [Sleep]) @
          trace_of (poll_sources H e suf st' f') \<and>
        sent_for n (trace_before H e srcs pre f) = [] \<and>
        sent_for n (trace_of (poll_sources H e suf st' f')) = [] \<and>
        (\<forall>k. 0 < k \<and> k \<le> length new \<longrightarrow>
           announce_items e n l (take k new) known st fb =
             (dispatches n l (take k new) known st,
              st(n \<mapsto> known \<union> item_id ` set (take k new)),
              Doc (st(n \<mapsto> known \<union> item_id ` set (take k new))), Normal)) \<and>
        poll_source H e (n, u, l) st fb =
          (Fetch n u # dispatches n l new known st @ (if items = [] then [] else [Sleep]),
           st', f', Normal)"
proof -
  note t = news_loop_decomposed [OF assms(1) refl assms(2,3,4) refl refl refl refl refl refl refl]
  show ?thesis
    unfolding Let_def
    by (intro conjI) (rule t(1), rule t(3), rule t(5), rule t(6), rule t(7), rule t(2))
qed

theorem dispatch_then_persist_witness:
  "fst (news_loop (\<lambda>u. u) (world (Some TextChannel) True [''C'', ''B'', ''A'']) [NOTICE]
          (Doc [''Notice'' \<mapsto> {link_of ''A''}])) =
     [Load, Fetch ''Notice'' ''https://mabinogimobile.nexon.com/News/Notice'',
      Send ''Notice'' ''notice'' (posted (\<lambda>u. u) ''B''),
      Save [''Notice'' \<mapsto> {link_of ''A'', link_of ''B''}],
      Send ''Notice'' ''notice'' (posted (\<lambda>u. u) ''C''),
      Save [''Notice'' \<mapsto> {link_of ''A'', link_of ''B'', link_of ''C''}],
      Sleep] \<and>
   file_of (announce_items (world (Some TextChannel) True [''C'', ''B'', ''A'']) ''Notice'' ''notice''
              [posted (\<lambda>u. u) ''B''] {link_of ''A''} [''Notice'' \<mapsto> {link_of ''A''}]
              (Doc [''Notice'' \<mapsto> {link_of ''A''}])) =
     Doc [''Notice'' \<mapsto> {link_of ''A'', link_of ''B''}] \<and>
   file_of (poll_source (\<lambda>u. u) (world (Some TextChannel) True [''C'', ''B'', ''A''])
              (''Notice'', ''https://mabinogimobile.nexon.com/News/Notice'', ''notice'')
              [''Notice'' \<mapsto> {link_of ''A''}] (Doc [''Notice'' \<mapsto> {link_of ''A''}])) =
     Doc [''Notice'' \<mapsto> {link_of ''A'', link_of ''B'', link_of ''C''}]"
proof -
  let ?e = "world (Some TextChannel) True [''C'', ''B'', ''A'']"
  let ?u = "''https://mabinogimobile.nexon.com/News/Notice''"
  let ?f = "Doc [''Notice'' \<mapsto> {link_of ''A''}]"
  have n: "[] @ (''Notice'', ?u, ''notice'') # [] = [NOTICE]" by (simp add: NOTICE_def)
  have d: "distinct (map fst ([] @ (''Notice'', ?u, ''notice'') # []))" by simp
  have c: "get_channel (notice_channel ?e) \<noteq> None"
    by (simp add: get_channel_def world_simps)
  have b: "bootstrap_done ?e" by (simp add: world_simps)
  have q: "Report \<notin> set (fst (news_loop (\<lambda>u. u) ?e ([] @ (''Notice'', ?u, ''notice'') # []) ?f))"
    by (rule world_quiet) (simp add: get_channel_def)
  have items: "fetch_latest_items (\<lambda>u. u) (http ?e ?u) 5 = map (posted (\<lambda>u. u)) [''C'', ''B'', ''A'']"
    by (subst fetch_world) (simp_all add: inj_on_def)
  have i: "item_id (posted (\<lambda>u. u) t) = link_of t" for t by (simp add: posted_def)
  have st: "state_before (\<lambda>u. u) ?e [NOTICE] [] ?f = [''Notice'' \<mapsto> {link_of ''A''}]"
    "file_before (\<lambda>u. u) ?e [NOTICE] [] ?f = ?f"
    "trace_before (\<lambda>u. u) ?e [NOTICE] [] ?f = []"
    by (simp_all add: state_before_def file_before_def trace_before_def load_state_def)
  have new: "rev (filter (\<lambda>it. item_id it \<notin> {link_of ''A''})
      (map (posted (\<lambda>u. u)) [''C'', ''B'', ''A''])) = [posted (\<lambda>u. u) ''B'', posted (\<lambda>u. u) ''C'']"
    by (simp add: i)
  note t = dispatch_then_persist [OF d c b q, unfolded Let_def n items st, simplified known_of_upd if_True new]
  from t [THEN conjunct2, THEN conjunct1]
  have one: "fst (news_loop (\<lambda>u. u) ?e [NOTICE] ?f) =
     [Load, Fetch ''Notice'' ?u,
      Send ''Notice'' ''notice'' (posted (\<lambda>u. u) ''B''),
      Save [''Notice'' \<mapsto> {link_of ''A'', link_of ''B''}],
      Send ''Notice'' ''notice'' (posted (\<lambda>u. u) ''C''),
      Save [''Notice'' \<mapsto> {link_of ''A'', link_of ''B'', link_of ''C''}],
      Sleep]"
    by (simp add: dispatches_Cons i insert_commute)
  from t [THEN conjunct2, THEN conjunct2, THEN conjunct2, THEN conjunct2, THEN conjunct1,
      THEN spec [where x = 1]]
  have two: "file_of (announce_items ?e ''Notice'' ''notice''
              [posted (\<lambda>u. u) ''B''] {link_of ''A''} [''Notice'' \<mapsto> {link_of ''A''}] ?f) =
     Doc [''Notice'' \<mapsto> {link_of ''A'', link_of ''B''}]"
    by (simp add: i insert_commute del: announce_items.simps)
  from t [THEN conjunct2, THEN conjunct2, THEN conjunct2, THEN conjunct2, THEN conjunct2]
  have three: "file_of (poll_source (\<lambda>u. u) ?e (''Notice'', ?u, ''notice'')
              [''Notice'' \<mapsto> {link_of ''A''}] ?f) =
     Doc [''Notice'' \<mapsto> {link_of ''A'', link_of ''B'', link_of ''C''}]"
    by (simp add: i insert_commute)
  from one two three show ?thesis by (intro conjI)
qed

section \<open>The delay\<close>

lemma delay_between_skip:
  "sent_for n tr = [] \<Longrightarrow>
     delay_between n p (tr @ rest) = delay_between n (p \<and> Sleep \<notin> set tr) rest"
proof (induction tr arbitrary: p)
  case Nil
  then show ?case by simp
next
  case (Cons ev tr)
  then show ?case by (cases ev) (auto split: if_splits)
qed

lemma delay_between_quiet: "sent_for n tr = [] \<Longrightarrow> delay_between n p tr"
  using delay_between_skip [of n tr p "[]"] by simp

lemma delay_between_dispatches:
  "delay_between n p (dispatches n l new known st @ rest) =
     (if new = [] then delay_between n p rest
      else \<not> p \<and> length new = 1 \<and> delay_between n True rest)"
proof (cases new)
  case Nil
  then show ?thesis by simp
next
  case (Cons it its)
  then show ?thesis by (cases its) (auto simp: dispatches_Cons)
qed

text \<open>
  Claim C8 as the specification states it fails: with two new items the trace of the
  source is its fetch, the message for the older item, the write, the message for the
  newer item, the write, and only then the sleep. No sleep lies between the two
  messages.
\<close>

theorem delay_between_dispatches_counterexample:
  "fst (news_loop (\<lambda>u. u) (world (Some TextChannel) True [''A'', ''B'']) [NOTICE] Unreadable) =
     [Load,
      Fetch ''Notice'' ''https://mabinogimobile.nexon.com/News/Notice'',
      Send ''Notice'' ''notice'' (posted (\<lambda>u. u) ''B''),
      Save [''Notice'' \<mapsto> {link_of ''B''}],
      Send ''Notice'' ''notice'' (posted (\<lambda>u. u) ''A''),
      Save [''Notice'' \<mapsto> {link_of ''B'', link_of ''A''}],
      Sleep] \<and>
   \<not> delay_between ''Notice'' False
       (fst (news_loop (\<lambda>u. u) (world (Some TextChannel) True [''A'', ''B'']) [NOTICE] Unreadable))"
proof -
  let ?e = "world (Some TextChannel) True [''A'', ''B'']"
  let ?u = "''https://mabinogimobile.nexon.com/News/Notice''"
  have n: "[NOTICE] = [] @ (''Notice'', ?u, ''notice'') # []" by (simp add: NOTICE_def)
  have d: "distinct (map fst [NOTICE])" by simp
  have c: "get_channel (notice_channel ?e) \<noteq> None"
    by (simp add: get_channel_def world_simps)
  have b: "bootstrap_done ?e" by (simp add: world_simps)
  have q: "Report \<notin> set (fst (news_loop (\<lambda>u. u) ?e [NOTICE] Unreadable))"
    by (rule world_quiet) (simp add: get_channel_def)
  have items: "fetch_latest_items (\<lambda>u. u) (http ?e ?u) 5 = map (posted (\<lambda>u. u)) [''A'', ''B'']"
    by (subst fetch_world) (simp_all add: inj_on_def)
  have i: "item_id (posted (\<lambda>u. u) t) = link_of t" for t by (simp add: posted_def)
  have st: "state_before (\<lambda>u. u) ?e [NOTICE] [] Unreadable = [''Notice'' \<mapsto> {}]"
    "trace_before (\<lambda>u. u) ?e [NOTICE] [] Unreadable = []"
    by (simp_all add: state_before_def trace_before_def load_state_def NOTICE_def)
  have tr: "fst (news_loop (\<lambda>u. u) ?e [NOTICE] Unreadable) =
     [Load, Fetch ''Notice'' ?u,
      Send ''Notice'' ''notice'' (posted (\<lambda>u. u) ''B''),
      Save [''Notice'' \<mapsto> {link_of ''B''}],
      Send ''Notice'' ''notice'' (posted (\<lambda>u. u) ''A''),
      Save [''Notice'' \<mapsto> {link_of ''B'', link_of ''A''}],
      Sleep]"
    unfolding news_loop_decomposed(3) [OF d n c b q refl refl refl refl refl refl refl] st items
    by (simp add: dispatches_Cons i insert_commute)
  show ?thesis unfolding tr by simp
qed

text \<open>
  Claim C8, as the code has it. The sleep is the last effect of the iteration of a
  source whose fetch was not empty, after the loop over its new items. In an invocation
  with the flag set and the channel resolved that does not end in \<^verbatim>\<open>report_error\<close> (no
  send and no write raises), the trace is: the load, the effects of the sources before,
  the fetch of the source, the messages for its new items, each followed at once by
  the write of the state and with no sleep among them, then the one sleep, then the
  effects of the sources after, which begin with the fetch of the next source. All the
  messages for the source are among those before its sleep. So a sleep separates the
  messages of one source from those of the next, and it lies between any two
  consecutive messages for the source itself only when the source has at most one new
  item.
\<close>

theorem delay_after_source:
  assumes "distinct (map fst (pre @ (n, u, l) # suf))"
    and "get_channel (notice_channel e) \<noteq> None" and "bootstrap_done e"
    and "fetch_latest_items H (http e u) 5 \<noteq> []"
    and "Report \<notin> set (fst (news_loop H e (pre @ (n, u, l) # suf) f))"
  shows
    "let srcs = pre @ (n, u, l) # suf;
         st = state_before H e srcs pre f;
         fb = file_before H e srcs pre f;
         known = known_of st n;
         new = rev (filter (\<lambda>it. item_id it \<notin> known) (fetch_latest_items H (http e u) 5));
         st' = (if new = [] then st else st(n \<mapsto> known \<union> item_id ` set new));
         f' = (if new = [] then fb else Doc st');
         rest = trace_of (poll_sources H e suf st' f')
     in fst (news_loop H e srcs f) =
          Load # trace_before H e srcs pre f @
          Fetch n u # dispatches n l new known st @ Sleep # rest \<and>
        known = (case f of Doc st0 \<Rightarrow> known_of st0 n | Unreadable \<Rightarrow> {}) \<and>
        Sleep \<notin> set (dispatches n l new known st) \<and>
        sent_for n (trace_before H e srcs pre f) = [] \<and>
        sent_for n rest = [] \<and>
        take 1 rest = (case suf of [] \<Rightarrow> [] | s # ss \<Rightarrow> [Fetch (fst s) (fst (snd s))]) \<and>
        (delay_between n False (fst (news_loop H e srcs f)) \<longleftrightarrow> length new \<le> 1)"
proof -
  let ?srcs = "pre @ (n, u, l) # suf"
  let ?st = "state_before H e ?srcs pre f"
  let ?fb = "file_before H e ?srcs pre f"
  let ?known = "known_of ?st n"
  let ?new = "rev (filter (\<lambda>it. item_id it \<notin> ?known) (fetch_latest_items H (http e u) 5))"
  let ?st' = "if ?new = [] then ?st else ?st(n \<mapsto> ?known \<union> item_id ` set ?new)"
  let ?f' = "if ?new = [] then ?fb else Doc ?st'"
  let ?rest = "trace_of (poll_sources H e suf ?st' ?f')"
  let ?body = "dispatches n l ?new ?known ?st"
  note t = news_loop_decomposed [OF assms(1) refl assms(2,3,5) refl refl refl refl refl refl refl]
  have tr: "fst (news_loop H e ?srcs f) =
      Load # trace_before H e ?srcs pre f @ Fetch n u # ?body @ Sleep # ?rest"
    using t(3) assms(4) by simp
  have qp: "sent_for n (trace_before H e ?srcs pre f) = []" by (rule t(5))
  have qs: "sent_for n ?rest = []" by (rule t(6))
  have "sent_for n (Load # trace_before H e ?srcs pre f @ [Fetch n u]) = []"
    using qp by (simp add: sent_for_append)
  from delay_between_skip [OF this, of False "?body @ Sleep # ?rest"]
  have "delay_between n False (fst (news_loop H e ?srcs f)) =
      delay_between n False (?body @ Sleep # ?rest)"
    by (simp add: tr)
  also have "\<dots> = (if ?new = [] then delay_between n False (Sleep # ?rest)
      else length ?new = 1 \<and> delay_between n True (Sleep # ?rest))"
    by (simp only: delay_between_dispatches simp_thms)
  also have "\<dots> = (length ?new \<le> 1)"
    using delay_between_quiet [OF qs] by (cases ?new) auto
  finally have db: "delay_between n False (fst (news_loop H e ?srcs f)) \<longleftrightarrow> length ?new \<le> 1" .
  show ?thesis
    unfolding Let_def
    by (intro conjI) (rule tr, rule t(1), rule dispatches_no_sleep, rule qp, rule qs,
        rule poll_sources_starts, rule db)
qed

theorem delay_after_source_witness:
  "fst (news_loop (\<lambda>u. u) (world (Some TextChannel) True [''A'', ''B'']) [NOTICE, UPDATE] Unreadable) =
     [Load,
      Fetch ''Notice'' ''https://mabinogimobile.nexon.com/News/Notice'',
      Send ''Notice'' ''notice'' (posted (\<lambda>u. u) ''B''),
      Save ((load_state [NOTICE, UPDATE] Unreadable)(''Notice'' \<mapsto> {link_of ''B''})),
      Send ''Notice'' ''notice'' (posted (\<lambda>u. u) ''A''),
      Save ((load_state [NOTICE, UPDATE] Unreadable)(''Notice'' \<mapsto> {link_of ''B'', link_of ''A''})),
      Sleep,
      Fetch ''Update'' ''https://mabinogimobile.nexon.com/News/Update''] \<and>
   \<not> delay_between ''Notice'' False
       (fst (news_loop (\<lambda>u. u) (world (Some TextChannel) True [''A'', ''B'']) [NOTICE, UPDATE] Unreadable))"
proof -
  let ?e = "world (Some TextChannel) True [''A'', ''B'']"
  let ?u = "''https://mabinogimobile.nexon.com/News/Notice''"
  let ?v = "''https://mabinogimobile.nexon.com/News/Update''"
  let ?ini = "load_state [NOTICE, UPDATE] Unreadable"
  have n: "[] @ (''Notice'', ?u, ''notice'') # [UPDATE] = [NOTICE, UPDATE]" by (simp add: NOTICE_def)
  have d: "distinct (map fst ([] @ (''Notice'', ?u, ''notice'') # [UPDATE]))"
    by (simp add: UPDATE_def)
  have c: "get_channel (notice_channel ?e) \<noteq> None"
    by (simp add: get_channel_def world_simps)
  have b: "bootstrap_done ?e" by (simp add: world_simps)
  have q: "Report \<notin> set (fst (news_loop (\<lambda>u. u) ?e ([] @ (''Notice'', ?u, ''notice'') # [UPDATE]) Unreadable))"
    by (rule world_quiet) (simp add: get_channel_def)
  have items: "fetch_latest_items (\<lambda>u. u) (http ?e ?u) 5 = map (posted (\<lambda>u. u)) [''A'', ''B'']"
    by (subst fetch_world) (simp_all add: inj_on_def)
  have ne: "fetch_latest_items (\<lambda>u. u) (http ?e ?u) 5 \<noteq> []" by (simp add: items)
  have fe: "fetch_latest_items (\<lambda>u. u) (http ?e ?v) 5 = []" by (simp add: world_def)
  have i: "item_id (posted (\<lambda>u. u) t) = link_of t" for t by (simp add: posted_def)
  have st: "state_before (\<lambda>u. u) ?e [NOTICE, UPDATE] [] Unreadable = ?ini"
    "file_before (\<lambda>u. u) ?e [NOTICE, UPDATE] [] Unreadable = Unreadable"
    "trace_before (\<lambda>u. u) ?e [NOTICE, UPDATE] [] Unreadable = []"
    by (simp_all add: state_before_def file_before_def trace_before_def)
  have k: "known_of ?ini ''Notice'' = {}"
    using persisted_Unreadable [of "[NOTICE, UPDATE]" "''Notice''"] by (simp add: persisted_def)
  have new: "rev (filter (\<lambda>it. item_id it \<notin> {})
      (map (posted (\<lambda>u. u)) [''A'', ''B''])) = [posted (\<lambda>u. u) ''B'', posted (\<lambda>u. u) ''A'']"
    by simp
  have up: "trace_of (poll_sources (\<lambda>u. u) ?e [UPDATE] s g) = [Fetch ''Update'' ?v]" for s g
    by (simp add: UPDATE_def poll_sources_Cons poll_source_empty [OF fe])
  note t = delay_after_source [OF d c b ne q, unfolded Let_def n items st k new up]
  from t [THEN conjunct1]
  have one: "fst (news_loop (\<lambda>u. u) ?e [NOTICE, UPDATE] Unreadable) =
     [Load, Fetch ''Notice'' ?u,
      Send ''Notice'' ''notice'' (posted (\<lambda>u. u) ''B''),
      Save (?ini(''Notice'' \<mapsto> {link_of ''B''})),
      Send ''Notice'' ''notice'' (posted (\<lambda>u. u) ''A''),
      Save (?ini(''Notice'' \<mapsto> {link_of ''B'', link_of ''A''})),
      Sleep, Fetch ''Update'' ?v]"
    by (simp add: dispatches_def i insert_commute)
  from t [THEN conjunct2, THEN conjunct2, THEN conjunct2, THEN conjunct2, THEN conjunct2,
      THEN conjunct2]
  have two: "\<not> delay_between ''Notice'' False
       (fst (news_loop (\<lambda>u. u) ?e [NOTICE, UPDATE] Unreadable))"
    by simp
  from one two show ?thesis by (rule conjI)
qed

end
